theory Spec2Isabelle
  imports Complex_Main
begin

section \<open>Numbers, vectors and the random source\<close>

text \<open>
  The program computes with JavaScript numbers. Finite numbers are idealised as the reals:
  outside the update of a frame, the rounding of a double-precision operation is not part
  of this model. Three things are written out. The division of two distances in \<open>detect\<close>
  can leave the finite numbers on the inputs it receives; there the quotient is a \<open>jsnum\<close>,
  with the infinities and NaN. A store into a \<open>Float32Array\<close> rounds the number to single
  precision: \<open>fround\<close> below, round to nearest with ties to even. And in the update
  \<open>cur += (t - cur) * alpha\<close> of a frame every operation rounds its result to double
  precision, \<open>dround\<close> below, before the store rounds the sum to single precision.
\<close>

type_synonym vec3 = "real \<times> real \<times> real"

datatype jsnum = Num real | PosInf | NegInf | NaN

definition js_div :: "real \<Rightarrow> real \<Rightarrow> jsnum" where
  \<comment> \<open>\<open>a / b\<close> on finite operands: \<open>x / 0\<close> is an infinity of the sign of \<open>x\<close>, \<open>0 / 0\<close> is NaN.\<close>
  "js_div a b =
     (if b \<noteq> 0 then Num (a / b)
      else if a > 0 then PosInf
      else if a < 0 then NegInf
      else NaN)"

fun js_gt :: "jsnum \<Rightarrow> real \<Rightarrow> bool" where
  "js_gt (Num x) c = (x > c)"
| "js_gt PosInf c = True"
| "js_gt NegInf c = False"
| "js_gt NaN c = False"

fun js_lt :: "jsnum \<Rightarrow> real \<Rightarrow> bool" where
  "js_lt (Num x) c = (x < c)"
| "js_lt PosInf c = False"
| "js_lt NegInf c = True"
| "js_lt NaN c = False"

text \<open>
  \<open>Math.random()\<close> is an explicit source of draws: the state is the sequence of the draws
  still to come, a call returns the first one and the rest.
\<close>

type_synonym rng = "nat \<Rightarrow> real"

definition Math_random :: "rng \<Rightarrow> real \<times> rng" where
  "Math_random g = (g 0, \<lambda>n. g (Suc n))"

definition unit_draws :: "rng \<Rightarrow> bool" where
  \<comment> \<open>what \<open>Math.random\<close> promises: every draw lies in \<open>[0, 1)\<close>\<close>
  "unit_draws g = (\<forall>n. 0 \<le> g n \<and> g n < 1)"

subsection \<open>Rounding: the store into a Float32Array and the operations of a frame\<close>

text \<open>
  A single-precision number is a multiple of \<open>2\<^sup>e\<^sup>-\<^sup>2\<^sup>3\<close>, where \<open>e\<close> is the exponent of
  its binade and at least -126 (below \<open>2\<^sup>-\<^sup>1\<^sup>2\<^sup>6\<close> the numbers are subnormal, multiples of
  \<open>2\<^sup>-\<^sup>1\<^sup>4\<^sup>9\<close>). The store rounds to the nearest such multiple, a tie to the even one. The
  numbers have no largest exponent here: the store turns a magnitude of \<open>2\<^sup>1\<^sup>2\<^sup>8\<close> and more
  into an infinity, which no array of this program reaches (an update stays between the
  entry and its target, and the points of the construction are within the chaos radius).
\<close>

definition rne :: "real \<Rightarrow> int" where
  \<comment> \<open>the nearest integer, a tie to the even one\<close>
  "rne y =
     (let f = \<lfloor>y\<rfloor>; r = y - of_int f
      in if r < 1 / 2 then f else if 1 / 2 < r then f + 1 else if even f then f else f + 1)"

definition pow2 :: "int \<Rightarrow> real" where
  "pow2 k = 2 powr of_int k"

definition f32_exponent :: "real \<Rightarrow> int" where
  "f32_exponent x = max (- 126) \<lfloor>log 2 \<bar>x\<bar>\<rfloor>"

definition fround :: "real \<Rightarrow> real" where
  \<comment> \<open>\<open>Math.fround\<close>, the value an element of a \<open>Float32Array\<close> has after \<open>a[i] = x\<close>\<close>
  "fround x =
     (if x = 0 then 0
      else (let u = pow2 (f32_exponent x - 23)
            in sgn x * (of_int (rne (\<bar>x\<bar> / u)) * u)))"

definition is_f32 :: "real \<Rightarrow> bool" where
  \<comment> \<open>the number is a single-precision number: what an element of a \<open>Float32Array\<close> is\<close>
  "is_f32 x = (fround x = x)"

text \<open>
  A double-precision number is a multiple of \<open>2\<^sup>e\<^sup>-\<^sup>5\<^sup>2\<close>, where \<open>e\<close> is the exponent of
  its binade and at least -1022. An arithmetic operation returns the double-precision
  number nearest to the exact result, a tie to the even one. Again there is no largest
  exponent: the difference, product and sum of an update are below \<open>2\<^sup>1\<^sup>3\<^sup>0\<close> in magnitude
  when its operands are elements of a \<open>Float32Array\<close> and \<open>alpha\<close> is below 1.
\<close>

definition f64_exponent :: "real \<Rightarrow> int" where
  "f64_exponent x = max (- 1022) \<lfloor>log 2 \<bar>x\<bar>\<rfloor>"

definition dround :: "real \<Rightarrow> real" where
  \<comment> \<open>the rounding of the exact result of a double-precision operation; also the value
      of a decimal literal of the source\<close>
  "dround x =
     (if x = 0 then 0
      else (let u = pow2 (f64_exponent x - 52)
            in sgn x * (of_int (rne (\<bar>x\<bar> / u)) * u)))"

definition is_f64 :: "real \<Rightarrow> bool" where
  \<comment> \<open>the number is a double-precision number: what a JavaScript number is\<close>
  "is_f64 x = (dround x = x)"

section \<open>types.ts and constants.ts\<close>

datatype TreeState = FORMED | CHAOS

definition NEEDLE_COUNT :: nat where "NEEDLE_COUNT = 12000"
definition ORNAMENT_COUNT :: nat where "ORNAMENT_COUNT = 3000"
definition TREE_HEIGHT :: real where "TREE_HEIGHT = 11"
definition TREE_RADIUS :: real where "TREE_RADIUS = 4.0"
definition CHAOS_RADIUS :: real where "CHAOS_RADIUS = 35"

section \<open>Interface: the gesture classifier (\<open>detect\<close>) and App's \<open>handleInteraction\<close>\<close>

text \<open>
  A hand of the handpose model carries its landmarks, each \<open>[x, y, z]\<close>. \<open>detect\<close> reads
  the landmarks 0 (wrist), 9 (middle finger knuckle) and 12 (middle finger tip); reading a
  coordinate of a landmark that is not there raises a TypeError.
\<close>

record hand =
  landmarks :: "vec3 list"

datatype js_error = TypeError

definition landmark :: "vec3 list \<Rightarrow> nat \<Rightarrow> js_error + vec3" where
  "landmark ls i = (if i < length ls then Inr (ls ! i) else Inl TypeError)"

definition dist2d :: "vec3 \<Rightarrow> vec3 \<Rightarrow> real" where
  \<comment> \<open>\<open>Math.sqrt(Math.pow(p[0]-q[0], 2) + Math.pow(p[1]-q[1], 2))\<close>\<close>
  "dist2d p q = (case (p, q) of ((p0, p1, p2), (q0, q1, q2)) \<Rightarrow>
     sqrt ((p0 - q0)\<^sup>2 + (p1 - q1)\<^sup>2))"

definition gesture_ratio :: "vec3 list \<Rightarrow> js_error + jsnum" where
  "gesture_ratio ls =
     (case landmark ls 0 of Inl e \<Rightarrow> Inl e | Inr wrist \<Rightarrow>
      case landmark ls 12 of Inl e \<Rightarrow> Inl e | Inr tip \<Rightarrow>
      case landmark ls 9 of Inl e \<Rightarrow> Inl e | Inr mcp \<Rightarrow>
        (let distToTip = dist2d tip wrist;
             distToMcp = dist2d mcp wrist
         in Inr (js_div distToTip distToMcp)))"

definition classify :: "jsnum \<Rightarrow> bool option" where
  \<comment> \<open>the argument \<open>detect\<close> passes to \<open>onManualInteract\<close>, or \<open>None\<close> when it does not call it\<close>
  "classify ratio =
     (if js_gt ratio 1.5 then Some True
      else if js_lt ratio 1.35 then Some False
      else None)"

definition detect :: "bool \<Rightarrow> hand list \<Rightarrow> js_error + bool option" where
  \<comment> \<open>\<open>ready\<close>: the webcam's video is there with \<open>readyState === 4\<close>;
      the list is the result of \<open>net.estimateHands(video)\<close>. The mousemove event that
      \<open>detect\<close> dispatches from the wrist does not reach the control state and is left out.\<close>
  "detect ready hs =
     (if ready then
        (case hs of
           [] \<Rightarrow> Inr None
         | h # _ \<Rightarrow>
             (case gesture_ratio (landmarks h) of
                Inl e \<Rightarrow> Inl e
              | Inr ratio \<Rightarrow> Inr (classify ratio)))
      else Inr None)"

definition handleInteraction :: "bool \<Rightarrow> TreeState" where
  "handleInteraction isInteracting = (if isInteracting then CHAOS else FORMED)"

definition emitted :: "bool option \<Rightarrow> TreeState option" where
  \<comment> \<open>the state \<open>setTreeState\<close> receives through \<open>onManualInteract\<close>, if it is called\<close>
  "emitted call = map_option handleInteraction call"

definition gesture_step :: "bool \<Rightarrow> hand list \<Rightarrow> TreeState \<Rightarrow> js_error + TreeState" where
  \<comment> \<open>the control state after one run of \<open>detect\<close>\<close>
  "gesture_step ready hs st =
     (case detect ready hs of
        Inl e \<Rightarrow> Inl e
      | Inr call \<Rightarrow> Inr (case emitted call of None \<Rightarrow> st | Some st' \<Rightarrow> st'))"

section \<open>TreeSystem: helpers\<close>

definition getRandomSpherePoint :: "real \<Rightarrow> rng \<Rightarrow> vec3 \<times> rng" where
  \<comment> \<open>\<open>Math.cbrt\<close> is the real cube root \<open>root 3\<close>; the draws are taken in the order u, v, w\<close>
  "getRandomSpherePoint radius g0 =
     (let (u, g1) = Math_random g0;
          (v, g2) = Math_random g1;
          theta = 2 * pi * u;
          phi = arccos (2 * v - 1);
          (w, g3) = Math_random g2;
          r = root 3 w * radius;
          x = r * sin phi * cos theta;
          y = r * sin phi * sin theta;
          z = r * cos phi
      in ((x, y, z), g3))"

definition lerp_update :: "real \<Rightarrow> real \<Rightarrow> real \<Rightarrow> real" where
  \<comment> \<open>\<open>cur += (t - cur) * alpha\<close> on an element \<open>cur\<close> of a \<open>Float32Array\<close>: the new value
      of the element. The difference, the product and the sum are double-precision
      operations, each rounded; the store rounds the sum to single precision.\<close>
  "lerp_update alpha t cur = fround (dround (cur + dround (dround (t - cur) * alpha)))"

fun lerp_iter :: "real \<Rightarrow> real \<Rightarrow> nat \<Rightarrow> real \<Rightarrow> real" where
  \<comment> \<open>the value after \<open>n\<close> frames with a fixed target\<close>
  "lerp_iter alpha t 0 cur = cur"
| "lerp_iter alpha t (Suc n) cur = lerp_iter alpha t n (lerp_update alpha t cur)"

section \<open>TreeSystem: the particle groups\<close>

text \<open>
  The five typed arrays of a particle group. \<open>positions\<close> is the array handed to the
  position attribute of the geometry, the one \<open>useFrame\<close> updates in place. A write to a
  typed array outside its range is ignored, as \<open>xs[i := v]\<close> is, and a write in its range
  stores \<open>fround v\<close>.
\<close>

record buffers =
  positions :: "real list"
  targetPositions :: "real list"
  chaosPositions :: "real list"
  colors :: "real list"
  sizes :: "real list"

definition new_buffers :: "nat \<Rightarrow> buffers" where
  \<comment> \<open>\<open>new Float32Array(count * 3)\<close> four times and \<open>new Float32Array(count)\<close>, zero-filled\<close>
  "new_buffers count =
     \<lparr> positions = replicate (count * 3) 0,
       targetPositions = replicate (count * 3) 0,
       chaosPositions = replicate (count * 3) 0,
       colors = replicate (count * 3) 0,
       sizes = replicate count 0 \<rparr>"

definition set3 :: "real list \<Rightarrow> nat \<Rightarrow> vec3 \<Rightarrow> real list" where
  \<comment> \<open>\<open>a[i * 3] = x; a[i * 3 + 1] = y; a[i * 3 + 2] = z\<close> on a \<open>Float32Array\<close>\<close>
  "set3 a i p =
     (case p of (x, y, z) \<Rightarrow>
        a[i * 3 := fround x, i * 3 + 1 := fround y, i * 3 + 2 := fround z])"

definition spiral_y :: "real \<Rightarrow> real \<Rightarrow> real" where
  "spiral_y pct height = pct * height - height / 2"

definition spiral_r :: "real \<Rightarrow> real \<Rightarrow> real" where
  "spiral_r pct maxRadius = (1 - pct) * maxRadius"

definition spiral_theta :: "real \<Rightarrow> real \<Rightarrow> real" where
  "spiral_theta pct spirals = pct * (pi * 2 * spirals)"

definition spiral_point :: "real \<Rightarrow> rng \<Rightarrow> vec3 \<times> rng" where
  \<comment> \<open>step 1 of the loop of GoldRibbons at \<open>pct\<close>, with the constants \<open>spirals\<close>, \<open>height\<close>,
      \<open>maxRadius\<close> and \<open>jitter\<close> of the source; the draws are taken in the order jx, jz, jy\<close>
  "spiral_point pct g0 =
     (let spirals = 5.5;
          height = TREE_HEIGHT;
          maxRadius = TREE_RADIUS + 0.5;
          y = spiral_y pct height;
          r = spiral_r pct maxRadius;
          theta = spiral_theta pct spirals;
          jitter = 0.6;
          (d1, g1) = Math_random g0;
          jx = (d1 - 0.5) * jitter;
          (d2, g2) = Math_random g1;
          jz = (d2 - 0.5) * jitter;
          (d3, g3) = Math_random g2;
          jy = (d3 - 0.5) * jitter;
          tx = r * cos theta + jx;
          ty = y + jy;
          tz = r * sin theta + jz
      in ((tx, ty, tz), g3))"

definition GoldRibbons_body :: "vec3 \<Rightarrow> vec3 \<Rightarrow> nat \<Rightarrow> nat \<Rightarrow> buffers \<times> rng \<Rightarrow> buffers \<times> rng" where
  \<comment> \<open>one round of the loop; \<open>hi\<close> and \<open>lo\<close> are the channels of the three.js colours
      \<open>COLORS.GOLD_HIGHLIGHT\<close> and \<open>COLORS.GOLD_DARK\<close>\<close>
  "GoldRibbons_body hi lo count i s =
     (case s of (b, g0) \<Rightarrow>
      (let pct = real i / real count;
           (t, g1) = spiral_point pct g0;
           (c, g2) = getRandomSpherePoint CHAOS_RADIUS g1;
           (d, g3) = Math_random g2;
           color = (if d > 0.5 then hi else lo);
           (e, g4) = Math_random g3
       in (b\<lparr> targetPositions := set3 (targetPositions b) i t,
               chaosPositions := set3 (chaosPositions b) i c,
               positions := set3 (positions b) i c,
               colors := set3 (colors b) i color,
               sizes := (sizes b)[i := fround (e * 0.5 + 0.3)] \<rparr>, g4)))"

definition GreenDust_body :: "vec3 \<Rightarrow> vec3 \<Rightarrow> nat \<Rightarrow> nat \<Rightarrow> buffers \<times> rng \<Rightarrow> buffers \<times> rng" where
  \<comment> \<open>one round of the loop; \<open>light\<close> and \<open>deep\<close> are the channels of
      \<open>COLORS.EMERALD_LIGHT\<close> and \<open>COLORS.EMERALD_DEEP\<close>\<close>
  "GreenDust_body light deep count i s =
     (case s of (b, g0) \<Rightarrow>
      (let height = TREE_HEIGHT;
           radiusBase = TREE_RADIUS;
           (yNorm, g1) = Math_random g0;
           y = yNorm * height - height / 2;
           maxR = (1 - yNorm) * radiusBase;
           (d1, g2) = Math_random g1;
           r = sqrt d1 * maxR;
           (d2, g3) = Math_random g2;
           theta = d2 * pi * 2;
           swirlOffset = yNorm * pi;
           tx = r * cos (theta + swirlOffset);
           tz = r * sin (theta + swirlOffset);
           (c, g4) = getRandomSpherePoint (CHAOS_RADIUS * 1.2) g3;
           (d3, g5) = Math_random g4;
           isBright = (d3 > 0.7);
           color = (if isBright then light else deep);
           (d4, g6) = Math_random g5
       in (b\<lparr> targetPositions := set3 (targetPositions b) i (tx, y, tz),
               chaosPositions := set3 (chaosPositions b) i c,
               positions := set3 (positions b) i c,
               colors := set3 (colors b) i color,
               sizes := (sizes b)[i := fround (d4 * 0.4 + 0.1)] \<rparr>, g6)))"

function for_loop :: "(nat \<Rightarrow> 's \<Rightarrow> 's) \<Rightarrow> nat \<Rightarrow> nat \<Rightarrow> 's \<Rightarrow> 's" where
  \<comment> \<open>\<open>for (let i = i0; i < count; i++) body\<close>\<close>
  "for_loop body i count s = (if i < count then for_loop body (Suc i) count (body i s) else s)"
  by pat_completeness auto
termination
  by (relation "measure (\<lambda>(body, i, count, s). count - i)") auto

declare for_loop.simps [simp del]

definition GoldRibbons_init :: "vec3 \<Rightarrow> vec3 \<Rightarrow> nat \<Rightarrow> rng \<Rightarrow> buffers \<times> rng" where
  \<comment> \<open>the \<open>useMemo\<close> of GoldRibbons for a group of \<open>count\<close> particles\<close>
  "GoldRibbons_init hi lo count g =
     for_loop (GoldRibbons_body hi lo count) 0 count (new_buffers count, g)"

definition GreenDust_init :: "vec3 \<Rightarrow> vec3 \<Rightarrow> nat \<Rightarrow> rng \<Rightarrow> buffers \<times> rng" where
  \<comment> \<open>the \<open>useMemo\<close> of GreenDust for a group of \<open>count\<close> particles\<close>
  "GreenDust_init light deep count g =
     for_loop (GreenDust_body light deep count) 0 count (new_buffers count, g)"

definition animate_body :: "real \<Rightarrow> bool \<Rightarrow> real list \<Rightarrow> real list \<Rightarrow> nat \<Rightarrow> real list \<Rightarrow> real list" where
  \<comment> \<open>one round of the loop of \<open>useFrame\<close> on \<open>currentPositions\<close>; the three indices are in
      the range of the three arrays, whose length is \<open>count * 3\<close>\<close>
  "animate_body alpha isFormed target chaos i cur =
     (let ix = i * 3;
          iy = i * 3 + 1;
          iz = i * 3 + 2;
          tx = (if isFormed then target ! ix else chaos ! ix);
          ty = (if isFormed then target ! iy else chaos ! iy);
          tz = (if isFormed then target ! iz else chaos ! iz);
          cur1 = cur[ix := lerp_update alpha tx (cur ! ix)];
          cur2 = cur1[iy := lerp_update alpha ty (cur1 ! iy)];
          cur3 = cur2[iz := lerp_update alpha tz (cur2 ! iz)]
      in cur3)"

definition useFrame :: "real \<Rightarrow> nat \<Rightarrow> bool \<Rightarrow> TreeState \<Rightarrow> buffers \<Rightarrow> buffers" where
  \<comment> \<open>one frame of a particle group; \<open>mounted\<close>: \<open>pointsRef.current\<close> is set\<close>
  "useFrame alpha count mounted state b =
     (if \<not> mounted then b
      else
        (let isFormed = (state = FORMED)
         in b\<lparr> positions :=
                 for_loop (animate_body alpha isFormed (targetPositions b) (chaosPositions b))
                   0 count (positions b) \<rparr>))"

definition GoldRibbons_useFrame :: "bool \<Rightarrow> TreeState \<Rightarrow> buffers \<Rightarrow> buffers" where
  \<comment> \<open>the literal \<open>0.05\<close> of the source is the double-precision number nearest to 0.05\<close>
  "GoldRibbons_useFrame = useFrame (dround 0.05) ORNAMENT_COUNT"

definition GreenDust_useFrame :: "bool \<Rightarrow> TreeState \<Rightarrow> buffers \<Rightarrow> buffers" where
  \<comment> \<open>the literal \<open>0.04\<close> of the source is the double-precision number nearest to 0.04\<close>
  "GreenDust_useFrame = useFrame (dround 0.04) NEEDLE_COUNT"

fun run_frames :: "(bool \<Rightarrow> TreeState \<Rightarrow> buffers \<Rightarrow> buffers) \<Rightarrow> (bool \<times> TreeState) list \<Rightarrow> buffers \<Rightarrow> buffers" where
  \<comment> \<open>the frames of a run, each with whether the group is mounted and the control state\<close>
  "run_frames f [] b = b"
| "run_frames f ((mounted, state) # fs) b = run_frames f fs (f mounted state b)"

section \<open>TreeSystem: Polaroid\<close>

text \<open>
  The \<open>useMemo\<close> of Polaroid. \<open>index\<close> and \<open>totalCount\<close> are the position of a photo in
  the array of photos and the length of that array, natural numbers. The two three.js
  operations on the dummy object are arguments: \<open>lookAt pos c\<close> is the quaternion of an
  object at \<open>pos\<close> after \<open>lookAt(c)\<close>, \<open>rotateY q a\<close> the quaternion \<open>q\<close> after
  \<open>rotateY(a)\<close>.
\<close>

record polaroid_locals =
  loc_y :: real
  loc_r :: real
  loc_angle :: real

definition Polaroid_locals :: "nat \<Rightarrow> nat \<Rightarrow> polaroid_locals" where
  "Polaroid_locals index totalCount =
     (let h = TREE_HEIGHT;
          rBase = TREE_RADIUS;
          minY = - h / 2 + 1.5;
          maxY = h / 2 - 2.0;
          rangeY = maxY - minY;
          y = (if totalCount \<le> 1 then (minY + maxY) / 2
               else (let ratio = real index / (real totalCount - 1) in minY + ratio * rangeY));
          coneProgress = (y + h / 2) / h;
          coneRadius = (1 - coneProgress) * rBase;
          r = coneRadius + 1.5;
          angle = real index * 2.39996
      in \<lparr> loc_y = y, loc_r = r, loc_angle = angle \<rparr>)"

definition Polaroid_target :: "nat \<Rightarrow> nat \<Rightarrow> vec3" where
  \<comment> \<open>\<open>new Vector3(Math.cos(angle) * r, y, Math.sin(angle) * r)\<close>\<close>
  "Polaroid_target index totalCount =
     (let l = Polaroid_locals index totalCount;
          y = loc_y l;
          r = loc_r l;
          angle = loc_angle l
      in (cos angle * r, y, sin angle * r))"

record 'q polaroid_memo =
  targetPos :: vec3
  chaosPos :: vec3
  targetRotationQ :: 'q

definition Polaroid_memo ::
  "(vec3 \<Rightarrow> vec3 \<Rightarrow> 'q) \<Rightarrow> ('q \<Rightarrow> real \<Rightarrow> 'q) \<Rightarrow> nat \<Rightarrow> nat \<Rightarrow> rng \<Rightarrow> 'q polaroid_memo \<times> rng" where
  "Polaroid_memo lookAt rotateY index totalCount g0 =
     (let y = loc_y (Polaroid_locals index totalCount);
          target = Polaroid_target index totalCount;
          q = rotateY (lookAt target (0, y, 0)) pi;
          (chaos, g1) = getRandomSpherePoint (CHAOS_RADIUS * 0.8) g0
      in (\<lparr> targetPos = target, chaosPos = chaos, targetRotationQ = q \<rparr>, g1))"

section \<open>Auxiliary definitions for the statements and proofs\<close>

text \<open>
  None of the definitions of this section is code of the program: a sample hand and the
  band of ratios for the classifier, the reduction of an angle modulo \<open>2\<pi>\<close> in which the spacing of the frames
  is stated, the invariant of the construction loops, and what the bounds of \<open>\<pi>\<close> need.
\<close>

definition hand_of :: "vec3 \<Rightarrow> vec3 \<Rightarrow> vec3 \<Rightarrow> hand" where
  \<comment> \<open>a hand of 21 landmarks with the given wrist, knuckle and tip, the others at the wrist\<close>
  "hand_of wrist mcp tip =
     \<lparr> landmarks = (replicate 21 wrist)[9 := mcp, 12 := tip] \<rparr>"

fun in_band :: "jsnum \<Rightarrow> bool" where
  \<comment> \<open>the ratio is a number from 1.35 to 1.5\<close>
  "in_band (Num x) = (1.35 \<le> x \<and> x \<le> 1.5)"
| "in_band PosInf = False"
| "in_band NegInf = False"
| "in_band NaN = False"

definition mod_2pi :: "real \<Rightarrow> real" where
  \<comment> \<open>the representative of an angle in \<open>[0, 2\<pi>)\<close>\<close>
  "mod_2pi a = a - 2 * pi * of_int \<lfloor>a / (2 * pi)\<rfloor>"

definition all_f32 :: "real list \<Rightarrow> bool" where
  \<comment> \<open>every element of the array is a single-precision number\<close>
  "all_f32 xs = (\<forall>x \<in> set xs. is_f32 x)"

definition stored :: "buffers \<times> rng \<Rightarrow> bool" where
  \<comment> \<open>a second invariant of the construction loops\<close>
  "stored s =
     (all_f32 (positions (fst s)) \<and> all_f32 (targetPositions (fst s)) \<and>
      all_f32 (chaosPositions (fst s)))"

definition aligned :: "nat \<Rightarrow> buffers \<times> rng \<Rightarrow> bool" where
  \<comment> \<open>the invariant of the two construction loops\<close>
  "aligned count s =
     (positions (fst s) = chaosPositions (fst s) \<and>
      length (positions (fst s)) = count * 3 \<and>
      length (targetPositions (fst s)) = count * 3 \<and>
      length (chaosPositions (fst s)) = count * 3)"

definition arctan_term :: "real \<Rightarrow> nat \<Rightarrow> real" where
  \<comment> \<open>the terms of the alternating series of \<open>arctan\<close>, without their signs\<close>
  "arctan_term x n = 1 / real (n * 2 + 1) * x ^ (n * 2 + 1)"

text \<open>
  A certificate checker for the multiples \<open>M = d \<cdot> 119998000\<close>, \<open>d = 1, 2, \<dots>\<close>: it keeps
  \<open>X = M - q \<cdot> 314159266\<close> and \<open>Y = (q + 1) \<cdot> 314159265 - M\<close> for the current \<open>q\<close> and
  asks both to be non-negative, so that no integer \<open>k\<close> has
  \<open>k \<cdot> 314159265 < M < k \<cdot> 314159266\<close>.
\<close>

fun gaps_ok :: "nat \<Rightarrow> int \<Rightarrow> int \<Rightarrow> bool" where
  "gaps_ok 0 X Y = True"
| "gaps_ok (Suc n) X Y =
     (0 \<le> X \<and> 0 \<le> Y \<and>
      (let X' = X + 119998000; Y' = Y - 119998000
       in if 314159266 \<le> X' then gaps_ok n (X' - 314159266) (Y' + 314159265)
          else gaps_ok n X' Y'))"

section \<open>The gesture classifier\<close>

lemma classify_cases:
  "(emitted (classify ratio) = Some CHAOS \<longleftrightarrow> js_gt ratio 1.5) \<and>
   (emitted (classify ratio) = Some FORMED \<longleftrightarrow> js_lt ratio 1.35) \<and>
   (in_band ratio \<longrightarrow> emitted (classify ratio) = None)"
  by (cases ratio) (auto simp: classify_def emitted_def handleInteraction_def)

lemma dist2d_on_axis: "dist2d (a, 0, c) (0, 0, 0) = \<bar>a\<bar>"
  by (simp add: dist2d_def)

lemma hand_of_ratio:
  "gesture_ratio (landmarks (hand_of (0, 0, 0) (m, 0, 0) (t, 0, 0))) = Inr (js_div \<bar>t\<bar> \<bar>m\<bar>)"
  by (simp add: hand_of_def gesture_ratio_def landmark_def dist2d_on_axis Let_def
      eval_nat_numeral)

text \<open>
  C1. A sample with a detected hand whose three landmarks are there has a ratio, and
  \<open>detect\<close> calls \<open>onManualInteract\<close> as \<open>classify\<close> says: the control state becomes
  CHAOS exactly when the ratio is greater than 1.5, FORMED exactly when it is less than
  1.35, and for a ratio in the band from 1.35 to 1.5 nothing is emitted and the control
  state stays what it was. The ratios 1.6, 1.45, 1.40, 1.2 emit CHAOS, nothing, nothing,
  FORMED.
\<close>

theorem gesture_hysteresis:
  assumes "gesture_ratio (landmarks h) = Inr ratio"
  shows "detect True (h # hs) = Inr (classify ratio) \<and>
     (emitted (classify ratio) = Some CHAOS \<longleftrightarrow> js_gt ratio 1.5) \<and>
     (emitted (classify ratio) = Some FORMED \<longleftrightarrow> js_lt ratio 1.35) \<and>
     (in_band ratio \<longrightarrow>
        emitted (classify ratio) = None \<and> gesture_step True (h # hs) st = Inr st) \<and>
     map (emitted \<circ> classify) [Num 1.6, Num 1.45, Num 1.40, Num 1.2]
       = [Some CHAOS, None, None, Some FORMED]"
proof -
  have d: "detect True (h # hs) = Inr (classify ratio)"
    using assms by (simp add: detect_def)
  have b: "in_band ratio \<Longrightarrow> gesture_step True (h # hs) st = Inr st"
    using classify_cases [of ratio] by (simp add: gesture_step_def d)
  have tr: "map (emitted \<circ> classify) [Num 1.6, Num 1.45, Num 1.40, Num 1.2]
       = [Some CHAOS, None, None, Some FORMED]"
    by (simp add: classify_def emitted_def handleInteraction_def)
  show ?thesis using d b tr classify_cases [of ratio] by blast
qed

theorem gesture_hysteresis_witness:
  "gesture_ratio (landmarks (hand_of (0, 0, 0) (5, 0, 0) (7, 0, 0))) = Inr (Num (7 / 5)) \<and>
   in_band (Num (7 / 5)) \<and>
   detect True [hand_of (0, 0, 0) (5, 0, 0) (7, 0, 0)] = Inr None \<and>
   gesture_step True [hand_of (0, 0, 0) (5, 0, 0) (7, 0, 0)] CHAOS = Inr CHAOS"
proof -
  have r: "gesture_ratio (landmarks (hand_of (0, 0, 0) (5, 0, 0) (7, 0, 0))) = Inr (Num (7 / 5))"
    by (simp add: hand_of_ratio js_div_def)
  have b: "in_band (Num (7 / 5))" by simp
  show ?thesis
    using r b gesture_hysteresis [OF r, of "[]" CHAOS] by (simp add: classify_def)
qed

section \<open>Single precision\<close>

text \<open>
  The store is monotone, it leaves a single-precision number as it is, and it returns a
  single-precision number nearest to its argument.
\<close>

lemma rne_bounds: "of_int (rne y) - 1 / 2 \<le> y \<and> y \<le> of_int (rne y) + 1 / 2"
proof -
  define f where "f = \<lfloor>y\<rfloor>"
  define r where "r = y - of_int f"
  have f: "of_int f \<le> y" "y < of_int f + 1" unfolding f_def by linarith+
  have y: "y = of_int f + r" by (simp add: r_def)
  have r: "0 \<le> r" "r < 1" using f by (simp_all add: r_def)
  have c: "rne y = f \<and> r \<le> 1 / 2 \<or> rne y = f + 1 \<and> 1 / 2 \<le> r"
    unfolding rne_def Let_def f_def [symmetric] r_def [symmetric] by auto
  then show ?thesis
  proof
    assume "rne y = f \<and> r \<le> 1 / 2"
    then show ?thesis using r y by simp
  next
    assume "rne y = f + 1 \<and> 1 / 2 \<le> r"
    then show ?thesis using r y by simp
  qed
qed

lemma rne_of_int [simp]: "rne (of_int n) = n"
  by (simp add: rne_def)

lemma rne_same_floor:
  assumes "rne y2 < rne y1" "y1 \<le> y2"
  shows False
proof -
  have 1: "of_int (rne y1) - 1 / 2 \<le> y1" using rne_bounds by blast
  have 2: "y2 \<le> of_int (rne y2) + 1 / 2" using rne_bounds by blast
  have 3: "real_of_int (rne y2) + 1 \<le> of_int (rne y1)"
  proof -
    have "rne y2 + 1 \<le> rne y1" using assms(1) by simp
    then have "real_of_int (rne y2 + 1) \<le> real_of_int (rne y1)" by (simp only: of_int_le_iff)
    then show ?thesis by simp
  qed
  have "y1 = y2" using 1 2 3 assms(2) by linarith
  then show False using assms(1) by simp
qed

lemma rne_mono: "y1 \<le> y2 \<Longrightarrow> rne y1 \<le> rne y2"
  using rne_same_floor [of y2 y1] by fastforce

lemma rne_ge: "of_int n \<le> y \<Longrightarrow> n \<le> rne y"
  using rne_mono [of "of_int n" y] by simp

lemma rne_le: "y \<le> of_int n \<Longrightarrow> rne y \<le> n"
  using rne_mono [of y "of_int n"] by simp

lemma pow2_pos [simp]: "0 < pow2 k"
  by (simp add: pow2_def)

lemma pow2_nonneg [simp]: "0 \<le> pow2 k"
  by (simp add: pow2_def)

lemma pow2_neq0 [simp]: "pow2 k \<noteq> 0"
  by (simp add: pow2_def)

lemma pow2_not_neg [simp]: "\<not> pow2 k < 0"
  by (simp add: pow2_def not_less)

lemma pow2_add: "pow2 (a + b) = pow2 a * pow2 b"
  by (simp add: pow2_def powr_add)

lemma pow2_le_iff [simp]: "pow2 a \<le> pow2 b \<longleftrightarrow> a \<le> b"
  by (simp add: pow2_def)

lemma pow2_less_iff [simp]: "pow2 a < pow2 b \<longleftrightarrow> a < b"
  by (simp add: pow2_def)

lemma pow2_nat: "pow2 (int n) = 2 ^ n"
  by (simp add: pow2_def powr_realpow)

lemma pow2_quot: "pow2 a / pow2 b = pow2 (a - b)"
  by (simp add: pow2_def powr_diff)

lemma pow2_quot_nat: "0 \<le> a - b \<Longrightarrow> pow2 a / pow2 b = of_int (2 ^ nat (a - b))"
proof -
  assume "0 \<le> a - b"
  then have "pow2 (a - b) = pow2 (int (nat (a - b)))" by simp
  also have "\<dots> = 2 ^ nat (a - b)" by (rule pow2_nat)
  finally show ?thesis by (simp add: pow2_quot)
qed

lemma exponent_ge: "- 126 \<le> f32_exponent x"
  by (simp add: f32_exponent_def)

lemma exponent_upper:
  assumes "x \<noteq> 0"
  shows "\<bar>x\<bar> < pow2 (f32_exponent x + 1)"
proof -
  let ?k = "\<lfloor>log 2 \<bar>x\<bar>\<rfloor>"
  have "\<bar>x\<bar> < 2 powr (of_int ?k + 1)"
    using assms floor_log_eq_powr_iff [of "\<bar>x\<bar>" 2 ?k] by simp
  then have "\<bar>x\<bar> < pow2 (?k + 1)" by (simp add: pow2_def)
  also have "\<dots> \<le> pow2 (f32_exponent x + 1)"
    by (simp add: f32_exponent_def)
  finally show ?thesis .
qed

lemma exponent_lower:
  assumes "x \<noteq> 0" "- 126 < f32_exponent x"
  shows "pow2 (f32_exponent x) \<le> \<bar>x\<bar>"
proof -
  let ?k = "\<lfloor>log 2 \<bar>x\<bar>\<rfloor>"
  have k: "f32_exponent x = ?k" using assms(2) by (simp add: f32_exponent_def max_def split: if_splits)
  have "2 powr of_int ?k \<le> \<bar>x\<bar>"
    using assms(1) floor_log_eq_powr_iff [of "\<bar>x\<bar>" 2 ?k] by simp
  then show ?thesis by (simp add: k pow2_def)
qed

lemma exponent_eqI:
  assumes "pow2 k \<le> \<bar>x\<bar>" "\<bar>x\<bar> < pow2 (k + 1)" "- 126 \<le> k"
  shows "f32_exponent x = k"
proof -
  have "0 < \<bar>x\<bar>" using assms(1) pow2_pos [of k] by linarith
  then have "\<lfloor>log 2 \<bar>x\<bar>\<rfloor> = k"
    using assms floor_log_eq_powr_iff [of "\<bar>x\<bar>" 2 k] by (simp add: pow2_def)
  then show ?thesis using assms(3) by (simp add: f32_exponent_def)
qed

lemma exponent_subnormal:
  assumes "x \<noteq> 0" "\<bar>x\<bar> < pow2 (- 125)"
  shows "f32_exponent x = - 126"
proof (rule ccontr)
  assume "f32_exponent x \<noteq> - 126"
  then have "- 126 < f32_exponent x" using exponent_ge [of x] by linarith
  then have "- 125 \<le> f32_exponent x" by simp
  then have "pow2 (- 125) \<le> pow2 (f32_exponent x)" by (simp del: pow2_pos)
  also have "\<dots> \<le> \<bar>x\<bar>" using exponent_lower [OF assms(1) \<open>- 126 < f32_exponent x\<close>] .
  finally show False using assms(2) by simp
qed

lemma exponent_mono:
  assumes "x \<noteq> 0" "\<bar>x\<bar> \<le> \<bar>y\<bar>"
  shows "f32_exponent x \<le> f32_exponent y"
proof -
  have "log 2 \<bar>x\<bar> \<le> log 2 \<bar>y\<bar>" using assms by simp
  then have "\<lfloor>log 2 \<bar>x\<bar>\<rfloor> \<le> \<lfloor>log 2 \<bar>y\<bar>\<rfloor>" by (rule floor_mono)
  then show ?thesis by (simp add: f32_exponent_def)
qed

lemma exponent_abs [simp]: "f32_exponent \<bar>x\<bar> = f32_exponent x"
  by (simp add: f32_exponent_def)

lemma exponent_minus [simp]: "f32_exponent (- x) = f32_exponent x"
  by (simp add: f32_exponent_def)

lemma fround_minus: "fround (- x) = - fround x"
  by (simp add: fround_def Let_def sgn_minus)

lemma fround_0 [simp]: "fround 0 = 0"
  by (simp add: fround_def)

lemma fround_pos:
  assumes "0 < x"
  shows "fround x = of_int (rne (x / pow2 (f32_exponent x - 23))) * pow2 (f32_exponent x - 23)"
  using assms by (simp add: fround_def Let_def)

lemma pow2_neg_nat: "pow2 (- int n) = 1 / 2 ^ n"
  by (simp add: pow2_def powr_minus powr_realpow inverse_eq_divide)

lemma pow2_0 [simp]: "pow2 0 = 1"
  by (simp add: pow2_def)

lemma pow2_shift: "m = k + int n \<Longrightarrow> of_int (2 ^ n) * pow2 k = pow2 m"
  by (simp add: pow2_add pow2_nat)

lemma pow2_numeral: "pow2 (numeral n) = 2 ^ numeral n"
  by (simp add: pow2_def)

lemma pow2_neg_numeral: "pow2 (- numeral n) = 1 / 2 ^ numeral n"
  by (simp add: pow2_def powr_neg_numeral)

lemma pow2_1: "pow2 1 = 2"
  by (simp add: pow2_def)

lemma pow2_m1: "pow2 (- 1) = 1 / 2"
  using pow2_neg_nat [of 1] by simp

lemma fround_nonneg:
  assumes "0 < x"
  shows "0 \<le> fround x"
proof -
  have "0 \<le> x / pow2 (f32_exponent x - 23)" using assms by simp
  then have "0 \<le> rne (x / pow2 (f32_exponent x - 23))"
    using rne_ge [of 0] by simp
  then show ?thesis using assms by (simp add: fround_pos)
qed

lemma fround_upper:
  assumes "0 < x"
  shows "fround x \<le> pow2 (f32_exponent x + 1)"
proof -
  let ?e = "f32_exponent x"
  let ?u = "pow2 (?e - 23)"
  have "x < pow2 (?e + 1)" using exponent_upper [of x] assms by simp
  then have "x / ?u \<le> pow2 (?e + 1) / ?u" by (intro divide_right_mono) simp_all
  also have "\<dots> = of_int (2 ^ 24)" by (subst pow2_quot_nat) simp_all
  finally have "rne (x / ?u) \<le> 2 ^ 24" by (rule rne_le)
  then have "real_of_int (rne (x / ?u)) \<le> real_of_int (2 ^ 24)" by (simp only: of_int_le_iff)
  then have "of_int (rne (x / ?u)) * ?u \<le> of_int (2 ^ 24) * ?u"
    by (intro mult_right_mono) simp_all
  also have "\<dots> = pow2 (?e + 1)" by (rule pow2_shift) simp
  finally show ?thesis unfolding fround_pos [OF assms] .
qed

lemma fround_lower:
  assumes "0 < x" "- 126 < f32_exponent x"
  shows "pow2 (f32_exponent x) \<le> fround x"
proof -
  let ?e = "f32_exponent x"
  let ?u = "pow2 (?e - 23)"
  have "pow2 ?e \<le> x" using exponent_lower [of x] assms by simp
  then have "pow2 ?e / ?u \<le> x / ?u" by (intro divide_right_mono) simp_all
  moreover have "pow2 ?e / ?u = of_int (2 ^ 23)" by (subst pow2_quot_nat) simp_all
  ultimately have "of_int (2 ^ 23) \<le> x / ?u" by simp
  then have "2 ^ 23 \<le> rne (x / ?u)" by (rule rne_ge)
  then have "real_of_int (2 ^ 23) \<le> real_of_int (rne (x / ?u))" by (simp only: of_int_le_iff)
  then have "of_int (2 ^ 23) * ?u \<le> of_int (rne (x / ?u)) * ?u"
    by (intro mult_right_mono) simp_all
  moreover have "of_int (2 ^ 23) * ?u = pow2 ?e" by (rule pow2_shift) simp
  ultimately have "pow2 ?e \<le> of_int (rne (x / ?u)) * ?u" by (simp only:)
  then show ?thesis unfolding fround_pos [OF assms(1)] .
qed

lemma fround_mono_pos:
  assumes "0 < x" "x \<le> y"
  shows "fround x \<le> fround y"
proof -
  have y: "0 < y" using assms by simp
  have le: "f32_exponent x \<le> f32_exponent y"
    using assms by (intro exponent_mono) simp_all
  show ?thesis
  proof (cases "f32_exponent x = f32_exponent y")
    case True
    let ?u = "pow2 (f32_exponent y - 23)"
    have "x / ?u \<le> y / ?u" using assms by (intro divide_right_mono) simp_all
    then have "rne (x / ?u) \<le> rne (y / ?u)" by (rule rne_mono)
    then have "real_of_int (rne (x / ?u)) \<le> real_of_int (rne (y / ?u))"
      by (simp only: of_int_le_iff)
    then have "of_int (rne (x / ?u)) * ?u \<le> of_int (rne (y / ?u)) * ?u"
      by (intro mult_right_mono) simp_all
    then show ?thesis using assms y True by (simp add: fround_pos)
  next
    case False
    then have lt: "f32_exponent x + 1 \<le> f32_exponent y" using le by simp
    have "- 126 < f32_exponent y" using lt exponent_ge [of x] by linarith
    then have "pow2 (f32_exponent y) \<le> fround y" using y by (intro fround_lower)
    moreover have "fround x \<le> pow2 (f32_exponent x + 1)" using assms(1) by (rule fround_upper)
    moreover have "pow2 (f32_exponent x + 1) \<le> pow2 (f32_exponent y)" using lt by simp
    ultimately show ?thesis by linarith
  qed
qed

lemma fround_nonpos:
  assumes "x < 0"
  shows "fround x \<le> 0"
  using fround_nonneg [of "- x"] assms by (simp add: fround_minus)

lemma fround_mono:
  assumes "x \<le> y"
  shows "fround x \<le> fround y"
proof -
  consider "0 < x" | "x = 0" "y = 0" | "x = 0" "0 < y" | "x < 0" "0 \<le> y" | "x < 0" "y < 0"
    using assms by linarith
  then show ?thesis
  proof cases
    case 1
    then show ?thesis using assms by (rule fround_mono_pos)
  next
    case 2
    then show ?thesis by simp
  next
    case 3
    then show ?thesis using fround_nonneg [of y] by simp
  next
    case 4
    have "fround x \<le> 0" using 4 by (intro fround_nonpos)
    moreover have "0 \<le> fround y" using 4 fround_nonneg [of y] by (cases "y = 0") simp_all
    ultimately show ?thesis by linarith
  next
    case 5
    then have "fround (- y) \<le> fround (- x)" using assms by (intro fround_mono_pos) simp_all
    then show ?thesis by (simp add: fround_minus)
  qed
qed

lemma fround_idem_pos:
  assumes "0 < x"
  shows "fround (fround x) = fround x"
proof -
  let ?e = "f32_exponent x"
  let ?u = "pow2 (?e - 23)"
  let ?n = "rne (x / ?u)"
  let ?y = "fround x"
  have y: "?y = of_int ?n * ?u" using assms by (rule fround_pos)
  have y0: "0 \<le> ?y" using assms by (rule fround_nonneg)
  have up: "?y \<le> pow2 (?e + 1)" using assms by (rule fround_upper)
  show ?thesis
  proof (cases "?y = 0")
    case True
    then show ?thesis by simp
  next
    case False
    then have ypos: "0 < ?y" using y0 by simp
    show ?thesis
    proof (cases "?y < pow2 (?e + 1)")
      case True
      have e: "f32_exponent ?y = ?e"
      proof (cases "- 126 < ?e")
        case True
        then have "pow2 ?e \<le> ?y" using assms by (intro fround_lower)
        then show ?thesis using \<open>?y < pow2 (?e + 1)\<close> ypos True
          by (intro exponent_eqI) simp_all
      next
        case False
        then have "?e = - 126" using exponent_ge [of x] by linarith
        then show ?thesis using \<open>?y < pow2 (?e + 1)\<close> ypos
          by (intro exponent_subnormal [THEN trans]) simp_all
      qed
      have "?y / ?u = of_int ?n" by (simp add: y)
      then have "fround ?y = of_int (rne (of_int ?n)) * ?u"
        using ypos by (simp add: fround_pos [OF ypos] e)
      then show ?thesis by (simp add: y)
    next
      case False
      then have eq: "?y = pow2 (?e + 1)" using up by simp
      have e: "f32_exponent ?y = ?e + 1"
        using exponent_ge [of x] by (intro exponent_eqI) (simp_all add: eq)
      have "?y / pow2 (?e + 1 - 23) = of_int (2 ^ 23)"
        unfolding eq by (subst pow2_quot_nat) simp_all
      then have "fround ?y = of_int (rne (of_int (2 ^ 23))) * pow2 (?e + 1 - 23)"
        using ypos by (simp add: fround_pos [OF ypos] e)
      also have "\<dots> = of_int (2 ^ 23) * pow2 (?e + 1 - 23)" by (simp only: rne_of_int)
      also have "\<dots> = pow2 (?e + 1)" by (rule pow2_shift) simp
      finally show ?thesis by (simp add: eq)
    qed
  qed
qed

lemma fround_idem [simp]: "fround (fround x) = fround x"
proof -
  consider "0 < x" | "x = 0" | "x < 0" by linarith
  then show ?thesis
  proof cases
    case 1
    then show ?thesis by (rule fround_idem_pos)
  next
    case 2
    then show ?thesis by simp
  next
    case 3
    then have "fround (fround (- x)) = fround (- x)" by (intro fround_idem_pos) simp
    then show ?thesis by (simp add: fround_minus)
  qed
qed

lemma fround_eval:
  assumes "pow2 k \<le> x" "x < pow2 (k + 1)" "- 126 \<le> k"
  shows "fround x = of_int (rne (x / pow2 (k - 23))) * pow2 (k - 23)"
proof -
  have x: "0 < x" using assms(1) pow2_pos [of k] by linarith
  have "f32_exponent x = k" using assms x by (intro exponent_eqI) simp_all
  then show ?thesis using x by (simp add: fround_pos)
qed

lemma on_grid:
  assumes "0 < c" "fround c = c"
  shows "\<exists>k::int. c = of_int k * pow2 (f32_exponent c - 23)"
  using fround_pos [OF assms(1)] assms(2) by metis

lemma rounded_up_nearest:
  assumes "0 < y" "fround c = c" "c \<le> y" "y < fround y"
  shows "fround y - y \<le> y - c"
proof -
  let ?e = "f32_exponent y"
  let ?u = "pow2 (?e - 23)"
  let ?n = "rne (y / ?u)"
  have d: "fround y = of_int ?n * ?u" using assms(1) by (rule fround_pos)
  have "of_int ?n - 1 / 2 \<le> y / ?u" using rne_bounds by blast
  then have "(of_int ?n - 1 / 2) * ?u \<le> y" by (simp add: pos_le_divide_eq)
  then have half: "fround y - ?u / 2 \<le> y" by (simp add: d algebra_simps)
  have step: "c \<le> fround y - ?u"
  proof (cases "0 < c")
    case False
    have "0 < of_int ?n * ?u" using assms(1,4) d by linarith
    then have "0 < ?n" by (simp add: zero_less_mult_iff)
    then have "1 \<le> real_of_int ?n" by simp
    then have "1 * ?u \<le> of_int ?n * ?u" by (intro mult_right_mono) simp_all
    then have "?u \<le> fround y" by (simp only: d mult_1)
    then show ?thesis using False by linarith
  next
    case True
    have le: "f32_exponent c \<le> ?e" using True assms(1,3) by (intro exponent_mono) simp_all
    show ?thesis
    proof (cases "f32_exponent c = ?e")
      case True
      obtain k :: int where k: "c = of_int k * ?u"
        using on_grid [OF \<open>0 < c\<close> assms(2)] True by auto
      have "of_int k * ?u < of_int ?n * ?u" using assms(3,4) k d by linarith
      then have "k < ?n" by (simp add: mult_less_cancel_right)
      then have "real_of_int k + 1 \<le> of_int ?n" by linarith
      then have "(of_int k + 1) * ?u \<le> of_int ?n * ?u" by (intro mult_right_mono) simp_all
      then show ?thesis by (simp add: k d algebra_simps)
    next
      case False
      then have lt: "f32_exponent c + 1 \<le> ?e" using le by simp
      have big: "- 126 < ?e" using lt exponent_ge [of c] by linarith
      have "c < pow2 (f32_exponent c + 1)" using exponent_upper [of c] True by simp
      also have "\<dots> \<le> pow2 ?e" using lt by simp
      finally have c: "c < pow2 ?e" .
      have p: "of_int (2 ^ 23) * ?u = pow2 ?e" by (rule pow2_shift) simp
      have "pow2 ?e \<le> y" using exponent_lower [of y] assms(1) big by simp
      then have "of_int (2 ^ 23) * ?u < of_int ?n * ?u" using assms(4) d p by linarith
      then have "2 ^ 23 < ?n" by (simp add: mult_less_cancel_right)
      then have "real_of_int (2 ^ 23) + 1 \<le> of_int ?n" by linarith
      then have A: "(of_int (2 ^ 23) + 1) * ?u \<le> of_int ?n * ?u"
        by (intro mult_right_mono) simp_all
      have B: "(of_int (2 ^ 23) + 1) * ?u = of_int (2 ^ 23) * ?u + ?u"
        by (simp only: distrib_right mult_1)
      have "pow2 ?e \<le> fround y - ?u"
        using A B p d by linarith
      then show ?thesis using c by linarith
    qed
  qed
  show ?thesis using half step by linarith
qed

lemma rounded_down_nearest:
  assumes "0 < y" "fround c = c" "y \<le> c" "fround y < y"
  shows "y - fround y \<le> c - y"
proof -
  let ?e = "f32_exponent y"
  let ?u = "pow2 (?e - 23)"
  let ?n = "rne (y / ?u)"
  have cpos: "0 < c" using assms by linarith
  have d: "fround y = of_int ?n * ?u" using assms(1) by (rule fround_pos)
  have "y / ?u \<le> of_int ?n + 1 / 2" using rne_bounds by blast
  then have "y \<le> (of_int ?n + 1 / 2) * ?u" by (simp add: pos_divide_le_eq)
  then have half: "y \<le> fround y + ?u / 2" by (simp add: d algebra_simps)
  have le: "?e \<le> f32_exponent c" using assms cpos by (intro exponent_mono) simp_all
  have step: "fround y + ?u \<le> c"
  proof (cases "f32_exponent c = ?e")
    case True
    obtain k :: int where k: "c = of_int k * ?u"
      using on_grid [OF cpos assms(2)] True by auto
    have "of_int ?n * ?u < of_int k * ?u" using assms(3,4) k d by linarith
    then have "?n < k" by (simp add: mult_less_cancel_right)
    then have "real_of_int ?n + 1 \<le> of_int k" by linarith
    then have "(of_int ?n + 1) * ?u \<le> of_int k * ?u" by (intro mult_right_mono) simp_all
    then show ?thesis by (simp add: k d algebra_simps)
  next
    case False
    then have lt: "?e + 1 \<le> f32_exponent c" using le by simp
    have big: "- 126 < f32_exponent c" using lt exponent_ge [of y] by linarith
    have "pow2 (?e + 1) \<le> pow2 (f32_exponent c)" using lt by simp
    also have "\<dots> \<le> c" using exponent_lower [of c] cpos big by simp
    finally have c: "pow2 (?e + 1) \<le> c" .
    have p: "of_int (2 ^ 24) * ?u = pow2 (?e + 1)" by (rule pow2_shift) simp
    have "y < pow2 (?e + 1)" using exponent_upper [of y] assms(1) by simp
    then have "of_int ?n * ?u < of_int (2 ^ 24) * ?u" using assms(4) d p by linarith
    then have "?n < 2 ^ 24" by (simp add: mult_less_cancel_right)
    then have "real_of_int ?n + 1 \<le> of_int (2 ^ 24)" by linarith
    then have A: "(of_int ?n + 1) * ?u \<le> of_int (2 ^ 24) * ?u"
      by (intro mult_right_mono) simp_all
    have B: "(of_int ?n + 1) * ?u = fround y + ?u" by (simp add: d algebra_simps)
    have "fround y + ?u \<le> pow2 (?e + 1)"
      using A B p by linarith
    then show ?thesis using c by linarith
  qed
  show ?thesis using half step by linarith
qed

lemma fround_nearest:
  assumes "fround c = c"
  shows "\<bar>fround y - y\<bar> \<le> \<bar>c - y\<bar>"
proof -
  have mc: "fround (- c) = - c" using assms by (simp add: fround_minus)
  consider "c \<le> y" "fround y \<le> y" | "c \<le> y" "y < fround y" "0 < y"
    | "c \<le> y" "y < fround y" "y < 0" | "y \<le> c" "y \<le> fround y"
    | "y \<le> c" "fround y < y" "0 < y" | "y \<le> c" "fround y < y" "y < 0"
    | "y = 0"
    by linarith
  then show ?thesis
  proof cases
    case 1
    have "c \<le> fround y" using fround_mono [OF 1(1)] assms by simp
    then show ?thesis using 1 by simp
  next
    case 2
    then show ?thesis using rounded_up_nearest [OF 2(3) assms 2(1) 2(2)] by simp
  next
    case 3
    have "- y - fround (- y) \<le> - c - (- y)"
      using 3 by (intro rounded_down_nearest mc) (simp_all add: fround_minus)
    then show ?thesis using 3 by (simp add: fround_minus)
  next
    case 4
    have "fround y \<le> c" using fround_mono [OF 4(1)] assms by simp
    then show ?thesis using 4 by simp
  next
    case 5
    then show ?thesis using rounded_down_nearest [OF 5(3) assms 5(1) 5(2)] by simp
  next
    case 6
    have "fround (- y) - (- y) \<le> - y - (- c)"
      using 6 by (intro rounded_up_nearest mc) (simp_all add: fround_minus)
    then show ?thesis using 6 by (simp add: fround_minus)
  next
    case 7
    then show ?thesis by simp
  qed
qed

lemmas pow2_eval = pow2_numeral pow2_neg_numeral pow2_1 pow2_m1

text \<open>Known values: 0.1 and 1/3 in single precision, and two ties.\<close>

lemma fround_tenth: "fround 0.1 = 13421773 / 134217728"
  using fround_eval [of "- 4" "0.1"] by (simp add: pow2_eval rne_def)

lemma fround_third: "fround (1 / 3) = 11184811 / 33554432"
  using fround_eval [of "- 2" "1 / 3"] by (simp add: pow2_eval rne_def)

lemma fround_tie: "fround (1 + 1 / 2 ^ 24) = 1" "fround (1 + 3 / 2 ^ 24) = 1 + 1 / 2 ^ 22"
  using fround_eval [of 0 "1 + 1 / 2 ^ 24"] fround_eval [of 0 "1 + 3 / 2 ^ 24"]
  by (simp_all add: pow2_eval rne_def)

section \<open>Double precision\<close>

text \<open>
  The rounding of an operation has the properties of the store: it is monotone, it leaves
  a double-precision number as it is, and it returns a double-precision number nearest to
  its argument.
\<close>

lemma dexponent_ge: "- 1022 \<le> f64_exponent x"
  by (simp add: f64_exponent_def)

lemma dexponent_upper:
  assumes "x \<noteq> 0"
  shows "\<bar>x\<bar> < pow2 (f64_exponent x + 1)"
proof -
  let ?k = "\<lfloor>log 2 \<bar>x\<bar>\<rfloor>"
  have "\<bar>x\<bar> < 2 powr (of_int ?k + 1)"
    using assms floor_log_eq_powr_iff [of "\<bar>x\<bar>" 2 ?k] by simp
  then have "\<bar>x\<bar> < pow2 (?k + 1)" by (simp add: pow2_def)
  also have "\<dots> \<le> pow2 (f64_exponent x + 1)"
    by (simp add: f64_exponent_def)
  finally show ?thesis .
qed

lemma dexponent_lower:
  assumes "x \<noteq> 0" "- 1022 < f64_exponent x"
  shows "pow2 (f64_exponent x) \<le> \<bar>x\<bar>"
proof -
  let ?k = "\<lfloor>log 2 \<bar>x\<bar>\<rfloor>"
  have k: "f64_exponent x = ?k" using assms(2) by (simp add: f64_exponent_def max_def split: if_splits)
  have "2 powr of_int ?k \<le> \<bar>x\<bar>"
    using assms(1) floor_log_eq_powr_iff [of "\<bar>x\<bar>" 2 ?k] by simp
  then show ?thesis by (simp add: k pow2_def)
qed

lemma dexponent_eqI:
  assumes "pow2 k \<le> \<bar>x\<bar>" "\<bar>x\<bar> < pow2 (k + 1)" "- 1022 \<le> k"
  shows "f64_exponent x = k"
proof -
  have "0 < \<bar>x\<bar>" using assms(1) pow2_pos [of k] by linarith
  then have "\<lfloor>log 2 \<bar>x\<bar>\<rfloor> = k"
    using assms floor_log_eq_powr_iff [of "\<bar>x\<bar>" 2 k] by (simp add: pow2_def)
  then show ?thesis using assms(3) by (simp add: f64_exponent_def)
qed

lemma dexponent_subnormal:
  assumes "x \<noteq> 0" "\<bar>x\<bar> < pow2 (- 1021)"
  shows "f64_exponent x = - 1022"
proof (rule ccontr)
  assume "f64_exponent x \<noteq> - 1022"
  then have "- 1022 < f64_exponent x" using dexponent_ge [of x] by linarith
  then have "- 1021 \<le> f64_exponent x" by simp
  then have "pow2 (- 1021) \<le> pow2 (f64_exponent x)" by (simp del: pow2_pos)
  also have "\<dots> \<le> \<bar>x\<bar>" using dexponent_lower [OF assms(1) \<open>- 1022 < f64_exponent x\<close>] .
  finally show False using assms(2) by simp
qed

lemma dexponent_mono:
  assumes "x \<noteq> 0" "\<bar>x\<bar> \<le> \<bar>y\<bar>"
  shows "f64_exponent x \<le> f64_exponent y"
proof -
  have "log 2 \<bar>x\<bar> \<le> log 2 \<bar>y\<bar>" using assms by simp
  then have "\<lfloor>log 2 \<bar>x\<bar>\<rfloor> \<le> \<lfloor>log 2 \<bar>y\<bar>\<rfloor>" by (rule floor_mono)
  then show ?thesis by (simp add: f64_exponent_def)
qed

lemma dexponent_abs [simp]: "f64_exponent \<bar>x\<bar> = f64_exponent x"
  by (simp add: f64_exponent_def)

lemma dexponent_minus [simp]: "f64_exponent (- x) = f64_exponent x"
  by (simp add: f64_exponent_def)

lemma dround_minus: "dround (- x) = - dround x"
  by (simp add: dround_def Let_def sgn_minus)

lemma dround_0 [simp]: "dround 0 = 0"
  by (simp add: dround_def)

lemma dround_pos:
  assumes "0 < x"
  shows "dround x = of_int (rne (x / pow2 (f64_exponent x - 52))) * pow2 (f64_exponent x - 52)"
  using assms by (simp add: dround_def Let_def)

lemma dround_nonneg:
  assumes "0 < x"
  shows "0 \<le> dround x"
proof -
  have "0 \<le> x / pow2 (f64_exponent x - 52)" using assms by simp
  then have "0 \<le> rne (x / pow2 (f64_exponent x - 52))"
    using rne_ge [of 0] by simp
  then show ?thesis using assms by (simp add: dround_pos)
qed

lemma dround_upper:
  assumes "0 < x"
  shows "dround x \<le> pow2 (f64_exponent x + 1)"
proof -
  let ?e = "f64_exponent x"
  let ?u = "pow2 (?e - 52)"
  have "x < pow2 (?e + 1)" using dexponent_upper [of x] assms by simp
  then have "x / ?u \<le> pow2 (?e + 1) / ?u" by (intro divide_right_mono) simp_all
  also have "\<dots> = of_int (2 ^ 53)" by (subst pow2_quot_nat) simp_all
  finally have "rne (x / ?u) \<le> 2 ^ 53" by (rule rne_le)
  then have "real_of_int (rne (x / ?u)) \<le> real_of_int (2 ^ 53)" by (simp only: of_int_le_iff)
  then have "of_int (rne (x / ?u)) * ?u \<le> of_int (2 ^ 53) * ?u"
    by (intro mult_right_mono) simp_all
  also have "\<dots> = pow2 (?e + 1)" by (rule pow2_shift) simp
  finally show ?thesis unfolding dround_pos [OF assms] .
qed

lemma dround_lower:
  assumes "0 < x" "- 1022 < f64_exponent x"
  shows "pow2 (f64_exponent x) \<le> dround x"
proof -
  let ?e = "f64_exponent x"
  let ?u = "pow2 (?e - 52)"
  have "pow2 ?e \<le> x" using dexponent_lower [of x] assms by simp
  then have "pow2 ?e / ?u \<le> x / ?u" by (intro divide_right_mono) simp_all
  moreover have "pow2 ?e / ?u = of_int (2 ^ 52)" by (subst pow2_quot_nat) simp_all
  ultimately have "of_int (2 ^ 52) \<le> x / ?u" by simp
  then have "2 ^ 52 \<le> rne (x / ?u)" by (rule rne_ge)
  then have "real_of_int (2 ^ 52) \<le> real_of_int (rne (x / ?u))" by (simp only: of_int_le_iff)
  then have "of_int (2 ^ 52) * ?u \<le> of_int (rne (x / ?u)) * ?u"
    by (intro mult_right_mono) simp_all
  moreover have "of_int (2 ^ 52) * ?u = pow2 ?e" by (rule pow2_shift) simp
  ultimately have "pow2 ?e \<le> of_int (rne (x / ?u)) * ?u" by (simp only:)
  then show ?thesis unfolding dround_pos [OF assms(1)] .
qed

lemma dround_mono_pos:
  assumes "0 < x" "x \<le> y"
  shows "dround x \<le> dround y"
proof -
  have y: "0 < y" using assms by simp
  have le: "f64_exponent x \<le> f64_exponent y"
    using assms by (intro dexponent_mono) simp_all
  show ?thesis
  proof (cases "f64_exponent x = f64_exponent y")
    case True
    let ?u = "pow2 (f64_exponent y - 52)"
    have "x / ?u \<le> y / ?u" using assms by (intro divide_right_mono) simp_all
    then have "rne (x / ?u) \<le> rne (y / ?u)" by (rule rne_mono)
    then have "real_of_int (rne (x / ?u)) \<le> real_of_int (rne (y / ?u))"
      by (simp only: of_int_le_iff)
    then have "of_int (rne (x / ?u)) * ?u \<le> of_int (rne (y / ?u)) * ?u"
      by (intro mult_right_mono) simp_all
    then show ?thesis using assms y True by (simp add: dround_pos)
  next
    case False
    then have lt: "f64_exponent x + 1 \<le> f64_exponent y" using le by simp
    have "- 1022 < f64_exponent y" using lt dexponent_ge [of x] by linarith
    then have "pow2 (f64_exponent y) \<le> dround y" using y by (intro dround_lower)
    moreover have "dround x \<le> pow2 (f64_exponent x + 1)" using assms(1) by (rule dround_upper)
    moreover have "pow2 (f64_exponent x + 1) \<le> pow2 (f64_exponent y)" using lt by simp
    ultimately show ?thesis by linarith
  qed
qed

lemma dround_nonpos:
  assumes "x < 0"
  shows "dround x \<le> 0"
  using dround_nonneg [of "- x"] assms by (simp add: dround_minus)

lemma dround_mono:
  assumes "x \<le> y"
  shows "dround x \<le> dround y"
proof -
  consider "0 < x" | "x = 0" "y = 0" | "x = 0" "0 < y" | "x < 0" "0 \<le> y" | "x < 0" "y < 0"
    using assms by linarith
  then show ?thesis
  proof cases
    case 1
    then show ?thesis using assms by (rule dround_mono_pos)
  next
    case 2
    then show ?thesis by simp
  next
    case 3
    then show ?thesis using dround_nonneg [of y] by simp
  next
    case 4
    have "dround x \<le> 0" using 4 by (intro dround_nonpos)
    moreover have "0 \<le> dround y" using 4 dround_nonneg [of y] by (cases "y = 0") simp_all
    ultimately show ?thesis by linarith
  next
    case 5
    then have "dround (- y) \<le> dround (- x)" using assms by (intro dround_mono_pos) simp_all
    then show ?thesis by (simp add: dround_minus)
  qed
qed

lemma dround_idem_pos:
  assumes "0 < x"
  shows "dround (dround x) = dround x"
proof -
  let ?e = "f64_exponent x"
  let ?u = "pow2 (?e - 52)"
  let ?n = "rne (x / ?u)"
  let ?y = "dround x"
  have y: "?y = of_int ?n * ?u" using assms by (rule dround_pos)
  have y0: "0 \<le> ?y" using assms by (rule dround_nonneg)
  have up: "?y \<le> pow2 (?e + 1)" using assms by (rule dround_upper)
  show ?thesis
  proof (cases "?y = 0")
    case True
    then show ?thesis by simp
  next
    case False
    then have ypos: "0 < ?y" using y0 by simp
    show ?thesis
    proof (cases "?y < pow2 (?e + 1)")
      case True
      have e: "f64_exponent ?y = ?e"
      proof (cases "- 1022 < ?e")
        case True
        then have "pow2 ?e \<le> ?y" using assms by (intro dround_lower)
        then show ?thesis using \<open>?y < pow2 (?e + 1)\<close> ypos True
          by (intro dexponent_eqI) simp_all
      next
        case False
        then have "?e = - 1022" using dexponent_ge [of x] by linarith
        then show ?thesis using \<open>?y < pow2 (?e + 1)\<close> ypos
          by (intro dexponent_subnormal [THEN trans]) simp_all
      qed
      have "?y / ?u = of_int ?n" by (simp add: y)
      then have "dround ?y = of_int (rne (of_int ?n)) * ?u"
        using ypos by (simp add: dround_pos [OF ypos] e)
      then show ?thesis by (simp add: y)
    next
      case False
      then have eq: "?y = pow2 (?e + 1)" using up by simp
      have e: "f64_exponent ?y = ?e + 1"
        using dexponent_ge [of x] by (intro dexponent_eqI) (simp_all add: eq)
      have "?y / pow2 (?e + 1 - 52) = of_int (2 ^ 52)"
        unfolding eq by (subst pow2_quot_nat) simp_all
      then have "dround ?y = of_int (rne (of_int (2 ^ 52))) * pow2 (?e + 1 - 52)"
        using ypos by (simp add: dround_pos [OF ypos] e)
      also have "\<dots> = of_int (2 ^ 52) * pow2 (?e + 1 - 52)" by (simp only: rne_of_int)
      also have "\<dots> = pow2 (?e + 1)" by (rule pow2_shift) simp
      finally show ?thesis by (simp add: eq)
    qed
  qed
qed

lemma dround_idem [simp]: "dround (dround x) = dround x"
proof -
  consider "0 < x" | "x = 0" | "x < 0" by linarith
  then show ?thesis
  proof cases
    case 1
    then show ?thesis by (rule dround_idem_pos)
  next
    case 2
    then show ?thesis by simp
  next
    case 3
    then have "dround (dround (- x)) = dround (- x)" by (intro dround_idem_pos) simp
    then show ?thesis by (simp add: dround_minus)
  qed
qed

lemma dround_eval:
  assumes "pow2 k \<le> x" "x < pow2 (k + 1)" "- 1022 \<le> k"
  shows "dround x = of_int (rne (x / pow2 (k - 52))) * pow2 (k - 52)"
proof -
  have x: "0 < x" using assms(1) pow2_pos [of k] by linarith
  have "f64_exponent x = k" using assms x by (intro dexponent_eqI) simp_all
  then show ?thesis using x by (simp add: dround_pos)
qed

lemma d_on_grid:
  assumes "0 < c" "dround c = c"
  shows "\<exists>k::int. c = of_int k * pow2 (f64_exponent c - 52)"
  using dround_pos [OF assms(1)] assms(2) by metis

lemma d_rounded_up_nearest:
  assumes "0 < y" "dround c = c" "c \<le> y" "y < dround y"
  shows "dround y - y \<le> y - c"
proof -
  let ?e = "f64_exponent y"
  let ?u = "pow2 (?e - 52)"
  let ?n = "rne (y / ?u)"
  have d: "dround y = of_int ?n * ?u" using assms(1) by (rule dround_pos)
  have "of_int ?n - 1 / 2 \<le> y / ?u" using rne_bounds by blast
  then have "(of_int ?n - 1 / 2) * ?u \<le> y" by (simp add: pos_le_divide_eq)
  then have half: "dround y - ?u / 2 \<le> y" by (simp add: d algebra_simps)
  have step: "c \<le> dround y - ?u"
  proof (cases "0 < c")
    case False
    have "0 < of_int ?n * ?u" using assms(1,4) d by linarith
    then have "0 < ?n" by (simp add: zero_less_mult_iff)
    then have "1 \<le> real_of_int ?n" by simp
    then have "1 * ?u \<le> of_int ?n * ?u" by (intro mult_right_mono) simp_all
    then have "?u \<le> dround y" by (simp only: d mult_1)
    then show ?thesis using False by linarith
  next
    case True
    have le: "f64_exponent c \<le> ?e" using True assms(1,3) by (intro dexponent_mono) simp_all
    show ?thesis
    proof (cases "f64_exponent c = ?e")
      case True
      obtain k :: int where k: "c = of_int k * ?u"
        using d_on_grid [OF \<open>0 < c\<close> assms(2)] True by auto
      have "of_int k * ?u < of_int ?n * ?u" using assms(3,4) k d by linarith
      then have "k < ?n" by (simp add: mult_less_cancel_right)
      then have "real_of_int k + 1 \<le> of_int ?n" by linarith
      then have "(of_int k + 1) * ?u \<le> of_int ?n * ?u" by (intro mult_right_mono) simp_all
      then show ?thesis by (simp add: k d algebra_simps)
    next
      case False
      then have lt: "f64_exponent c + 1 \<le> ?e" using le by simp
      have big: "- 1022 < ?e" using lt dexponent_ge [of c] by linarith
      have "c < pow2 (f64_exponent c + 1)" using dexponent_upper [of c] True by simp
      also have "\<dots> \<le> pow2 ?e" using lt by simp
      finally have c: "c < pow2 ?e" .
      have p: "of_int (2 ^ 52) * ?u = pow2 ?e" by (rule pow2_shift) simp
      have "pow2 ?e \<le> y" using dexponent_lower [of y] assms(1) big by simp
      then have "of_int (2 ^ 52) * ?u < of_int ?n * ?u" using assms(4) d p by linarith
      then have "2 ^ 52 < ?n" by (simp add: mult_less_cancel_right)
      then have "real_of_int (2 ^ 52) + 1 \<le> of_int ?n" by linarith
      then have A: "(of_int (2 ^ 52) + 1) * ?u \<le> of_int ?n * ?u"
        by (intro mult_right_mono) simp_all
      have B: "(of_int (2 ^ 52) + 1) * ?u = of_int (2 ^ 52) * ?u + ?u"
        by (simp only: distrib_right mult_1)
      have "pow2 ?e \<le> dround y - ?u"
        using A B p d by linarith
      then show ?thesis using c by linarith
    qed
  qed
  show ?thesis using half step by linarith
qed

lemma d_rounded_down_nearest:
  assumes "0 < y" "dround c = c" "y \<le> c" "dround y < y"
  shows "y - dround y \<le> c - y"
proof -
  let ?e = "f64_exponent y"
  let ?u = "pow2 (?e - 52)"
  let ?n = "rne (y / ?u)"
  have cpos: "0 < c" using assms by linarith
  have d: "dround y = of_int ?n * ?u" using assms(1) by (rule dround_pos)
  have "y / ?u \<le> of_int ?n + 1 / 2" using rne_bounds by blast
  then have "y \<le> (of_int ?n + 1 / 2) * ?u" by (simp add: pos_divide_le_eq)
  then have half: "y \<le> dround y + ?u / 2" by (simp add: d algebra_simps)
  have le: "?e \<le> f64_exponent c" using assms cpos by (intro dexponent_mono) simp_all
  have step: "dround y + ?u \<le> c"
  proof (cases "f64_exponent c = ?e")
    case True
    obtain k :: int where k: "c = of_int k * ?u"
      using d_on_grid [OF cpos assms(2)] True by auto
    have "of_int ?n * ?u < of_int k * ?u" using assms(3,4) k d by linarith
    then have "?n < k" by (simp add: mult_less_cancel_right)
    then have "real_of_int ?n + 1 \<le> of_int k" by linarith
    then have "(of_int ?n + 1) * ?u \<le> of_int k * ?u" by (intro mult_right_mono) simp_all
    then show ?thesis by (simp add: k d algebra_simps)
  next
    case False
    then have lt: "?e + 1 \<le> f64_exponent c" using le by simp
    have big: "- 1022 < f64_exponent c" using lt dexponent_ge [of y] by linarith
    have "pow2 (?e + 1) \<le> pow2 (f64_exponent c)" using lt by simp
    also have "\<dots> \<le> c" using dexponent_lower [of c] cpos big by simp
    finally have c: "pow2 (?e + 1) \<le> c" .
    have p: "of_int (2 ^ 53) * ?u = pow2 (?e + 1)" by (rule pow2_shift) simp
    have "y < pow2 (?e + 1)" using dexponent_upper [of y] assms(1) by simp
    then have "of_int ?n * ?u < of_int (2 ^ 53) * ?u" using assms(4) d p by linarith
    then have "?n < 2 ^ 53" by (simp add: mult_less_cancel_right)
    then have "real_of_int ?n + 1 \<le> of_int (2 ^ 53)" by linarith
    then have A: "(of_int ?n + 1) * ?u \<le> of_int (2 ^ 53) * ?u"
      by (intro mult_right_mono) simp_all
    have B: "(of_int ?n + 1) * ?u = dround y + ?u" by (simp add: d algebra_simps)
    have "dround y + ?u \<le> pow2 (?e + 1)"
      using A B p by linarith
    then show ?thesis using c by linarith
  qed
  show ?thesis using half step by linarith
qed

lemma dround_nearest:
  assumes "dround c = c"
  shows "\<bar>dround y - y\<bar> \<le> \<bar>c - y\<bar>"
proof -
  have mc: "dround (- c) = - c" using assms by (simp add: dround_minus)
  consider "c \<le> y" "dround y \<le> y" | "c \<le> y" "y < dround y" "0 < y"
    | "c \<le> y" "y < dround y" "y < 0" | "y \<le> c" "y \<le> dround y"
    | "y \<le> c" "dround y < y" "0 < y" | "y \<le> c" "dround y < y" "y < 0"
    | "y = 0"
    by linarith
  then show ?thesis
  proof cases
    case 1
    have "c \<le> dround y" using dround_mono [OF 1(1)] assms by simp
    then show ?thesis using 1 by simp
  next
    case 2
    then show ?thesis using d_rounded_up_nearest [OF 2(3) assms 2(1) 2(2)] by simp
  next
    case 3
    have "- y - dround (- y) \<le> - c - (- y)"
      using 3 by (intro d_rounded_down_nearest mc) (simp_all add: dround_minus)
    then show ?thesis using 3 by (simp add: dround_minus)
  next
    case 4
    have "dround y \<le> c" using dround_mono [OF 4(1)] assms by simp
    then show ?thesis using 4 by simp
  next
    case 5
    then show ?thesis using d_rounded_down_nearest [OF 5(3) assms 5(1) 5(2)] by simp
  next
    case 6
    have "dround (- y) - (- y) \<le> - y - (- c)"
      using 6 by (intro d_rounded_up_nearest mc) (simp_all add: dround_minus)
    then show ?thesis using 6 by (simp add: dround_minus)
  next
    case 7
    then show ?thesis by simp
  qed
qed

text \<open>
  Numbers on a grid of spacing \<open>2\<^sup>k\<close> with fewer than 53 bits are double-precision numbers;
  so is every single-precision number. Two different single-precision numbers are at
  least \<open>2\<^sup>-\<^sup>1\<^sup>4\<^sup>9\<close> apart, and a double-precision number below 1 is at most \<open>1 - 2\<^sup>-\<^sup>5\<^sup>3\<close>.
\<close>

lemma pow2_int_pow: "0 \<le> j \<Longrightarrow> pow2 j = of_int (2 ^ nat j)"
  using pow2_nat [of "nat j"] by simp

lemma d_grid_rep:
  assumes "x = of_int n * pow2 k" "- 1074 \<le> k" "\<bar>x\<bar> < pow2 (k + 53)"
  shows "dround x = x"
proof (cases "x = 0")
  case True
  then show ?thesis by simp
next
  case False
  let ?e = "f64_exponent x"
  let ?u = "pow2 (?e - 52)"
  have e: "?e \<le> k + 52"
  proof (cases "- 1022 < ?e")
    case True
    have "pow2 ?e \<le> \<bar>x\<bar>" using dexponent_lower [OF False True] .
    then have "pow2 ?e < pow2 (k + 53)" using assms(3) by linarith
    then show ?thesis by simp
  next
    case False
    then show ?thesis using assms(2) dexponent_ge [of x] by linarith
  qed
  define j where "j = k - (?e - 52)"
  have j: "0 \<le> j" using e by (simp add: j_def)
  have "pow2 k = pow2 j * ?u" by (simp add: j_def pow2_add [symmetric])
  then have k: "pow2 k = of_int (2 ^ nat j) * ?u" using pow2_int_pow [OF j] by simp
  have "\<bar>x\<bar> = of_int \<bar>n\<bar> * pow2 k" by (simp add: assms(1) abs_mult)
  then have ax: "\<bar>x\<bar> = of_int (\<bar>n\<bar> * 2 ^ nat j) * ?u" by (simp add: k)
  then have "\<bar>x\<bar> / ?u = of_int (\<bar>n\<bar> * 2 ^ nat j)" by simp
  then have "rne (\<bar>x\<bar> / ?u) = \<bar>n\<bar> * 2 ^ nat j" by (simp only: rne_of_int)
  then have "dround x = sgn x * (of_int (\<bar>n\<bar> * 2 ^ nat j) * ?u)"
    using False by (simp add: dround_def Let_def)
  also have "\<dots> = sgn x * \<bar>x\<bar>" by (simp only: ax)
  also have "\<dots> = x" by (simp add: sgn_mult_abs)
  finally show ?thesis .
qed

lemma f32_on_grid:
  assumes "fround x = x"
  shows "\<exists>n::int. x = of_int n * pow2 (f32_exponent x - 23)"
proof (cases "x = 0")
  case True
  then show ?thesis by (intro exI [of _ 0]) simp
next
  case False
  let ?u = "pow2 (f32_exponent x - 23)"
  let ?n = "rne (\<bar>x\<bar> / ?u)"
  have x: "x = sgn x * (of_int ?n * ?u)"
    using assms False by (simp add: fround_def Let_def)
  show ?thesis
  proof (cases "0 < x")
    case True
    then have "x = of_int ?n * ?u" using x by simp
    then show ?thesis by blast
  next
    case False
    then have "x < 0" using \<open>x \<noteq> 0\<close> by simp
    then have "x = of_int (- ?n) * ?u" using x by simp
    then show ?thesis by blast
  qed
qed

lemma f32_is_f64:
  assumes "fround x = x"
  shows "dround x = x"
proof (cases "x = 0")
  case True
  then show ?thesis by simp
next
  case False
  obtain n :: int where n: "x = of_int n * pow2 (f32_exponent x - 23)"
    using f32_on_grid [OF assms] by blast
  have "\<bar>x\<bar> < pow2 (f32_exponent x + 1)" using exponent_upper [OF False] .
  also have "\<dots> \<le> pow2 (f32_exponent x - 23 + 53)" by simp
  finally have b: "\<bar>x\<bar> < pow2 (f32_exponent x - 23 + 53)" .
  have k: "- 1074 \<le> f32_exponent x - 23" using exponent_ge [of x] by linarith
  show ?thesis using n k b by (rule d_grid_rep)
qed

lemma f32_multiple:
  assumes "fround x = x"
  shows "\<exists>n::int. x = of_int n * pow2 (- 149)"
proof -
  obtain n :: int where n: "x = of_int n * pow2 (f32_exponent x - 23)"
    using f32_on_grid [OF assms] by blast
  define j where "j = f32_exponent x + 126"
  have j: "0 \<le> j" using exponent_ge [of x] by (simp add: j_def)
  have "pow2 (f32_exponent x - 23) = pow2 j * pow2 (- 149)"
    by (simp add: j_def pow2_add [symmetric])
  then have "x = of_int (n * 2 ^ nat j) * pow2 (- 149)"
    using n pow2_int_pow [OF j] by simp
  then show ?thesis by blast
qed

lemma f32_difference_large:
  assumes "fround c = c" "fround t = t" "c < t"
  shows "pow2 (- 149) \<le> t - c"
proof -
  obtain n m :: int where n: "c = of_int n * pow2 (- 149)" and m: "t = of_int m * pow2 (- 149)"
    using f32_multiple assms(1,2) by blast
  have "of_int n * pow2 (- 149) < of_int m * pow2 (- 149)" using assms(3) n m by simp
  then have "n < m" by (simp add: mult_less_cancel_right)
  then have "real_of_int n + 1 \<le> of_int m" by linarith
  then have "(of_int n + 1) * pow2 (- 149) \<le> of_int m * pow2 (- 149)"
    by (intro mult_right_mono) simp_all
  then have "of_int n * pow2 (- 149) + pow2 (- 149) \<le> of_int m * pow2 (- 149)"
    by (simp only: distrib_right mult_1)
  then show ?thesis using n m by linarith
qed

lemma double_below_one:
  assumes "dround a = a" "0 < a" "a < 1"
  shows "a \<le> 1 - pow2 (- 53)"
proof (cases "a < 1 / 2")
  case True
  have "pow2 (- 53) \<le> pow2 (- 1)" by simp
  then have "pow2 (- 53) \<le> 1 / 2" by (simp add: pow2_m1)
  then show ?thesis using True by linarith
next
  case False
  then have "pow2 (- 1) \<le> \<bar>a\<bar>" using assms by (simp add: pow2_m1)
  moreover have "\<bar>a\<bar> < pow2 (- 1 + 1)" using assms by simp
  ultimately have e: "f64_exponent a = - 1" by (rule dexponent_eqI) simp
  obtain k :: int where k: "a = of_int k * pow2 (- 53)"
    using d_on_grid [OF assms(2,1)] e by auto
  have one: "of_int (2 ^ 53) * pow2 (- 53) = 1"
    using pow2_shift [of 0 "- 53" 53] by simp
  have "of_int k * pow2 (- 53) < of_int (2 ^ 53) * pow2 (- 53)"
    using assms(3) k one by simp
  then have "k < 2 ^ 53" by (simp add: mult_less_cancel_right)
  then have "real_of_int k + 1 \<le> of_int (2 ^ 53)" by linarith
  then have "(of_int k + 1) * pow2 (- 53) \<le> of_int (2 ^ 53) * pow2 (- 53)"
    by (intro mult_right_mono) simp_all
  then have "of_int k * pow2 (- 53) + pow2 (- 53) \<le> of_int (2 ^ 53) * pow2 (- 53)"
    by (simp only: distrib_right mult_1)
  then show ?thesis using k one by linarith
qed

text \<open>
  The rounded product of a double-precision number \<open>d\<close>, not subnormal, with a
  double-precision factor below 1 is below \<open>d\<close>.
\<close>

lemma product_below:
  assumes "0 < a" "a < 1" "dround a = a" "dround d = d" "pow2 (- 1021) \<le> d"
  shows "dround (d * a) < d"
proof (rule ccontr)
  assume "\<not> dround (d * a) < d"
  have dpos: "0 < d" using assms(5) pow2_pos [of "- 1021"] by linarith
  have "d * a \<le> d * 1" using dpos assms(2) by (intro mult_left_mono) simp_all
  then have "dround (d * a) \<le> dround d" by (intro dround_mono) simp
  then have eq: "dround (d * a) = d" using \<open>\<not> dround (d * a) < d\<close> assms(4) by linarith
  let ?e = "f64_exponent d"
  let ?u = "pow2 (?e - 52)"
  have big: "- 1022 < ?e"
  proof (rule ccontr)
    assume "\<not> - 1022 < ?e"
    then have "?e = - 1022" using dexponent_ge [of d] by linarith
    then have "\<bar>d\<bar> < pow2 (- 1021)" using dexponent_upper [of d] dpos by simp
    then show False using assms(5) dpos by simp
  qed
  obtain n :: int where n: "d = of_int n * ?u" using d_on_grid [OF dpos assms(4)] by blast
  have lo: "pow2 ?e \<le> d" using dexponent_lower [of d] dpos big by simp
  have hi: "d < pow2 (?e + 1)" using dexponent_upper [of d] dpos by simp
  have uu: "pow2 (?e - 53) + pow2 (?e - 53) = ?u"
  proof -
    have "of_int (2 ^ 1) * pow2 (?e - 53) = ?u" by (rule pow2_shift) simp
    then show ?thesis by simp
  qed
  have gap: "pow2 (- 53) \<le> 1 - a" using double_below_one [OF assms(3,1,2)] by linarith
  have pe: "pow2 ?e * pow2 (- 53) = pow2 (?e - 53)" by (simp add: pow2_add [symmetric])
  have "pow2 ?e * pow2 (- 53) \<le> d * (1 - a)"
    using lo gap dpos by (intro mult_mono) simp_all
  then have half: "pow2 (?e - 53) \<le> d - d * a" by (simp add: pe algebra_simps)
  \<comment> \<open>the double just below \<open>d\<close> on the grid of its binade\<close>
  have c1: "dround (d - ?u) = d - ?u"
  proof (rule d_grid_rep)
    have "of_int (n - 1) * ?u = of_int n * ?u - ?u" by (simp add: algebra_simps)
    also have "of_int n * ?u = d" using n by (rule sym)
    finally show "d - ?u = of_int (n - 1) * ?u" by (rule sym)
    show "- 1074 \<le> ?e - 52" using big by simp
    have "?u \<le> pow2 ?e" by simp
    then have nn: "0 \<le> d - ?u" using lo by linarith
    have "d - ?u < pow2 (?e + 1)" using hi pow2_pos [of "?e - 52"] by linarith
    then have "\<bar>d - ?u\<bar> < pow2 (?e + 1)" using nn by (simp only: abs_of_nonneg)
    moreover have "?e - 52 + 53 = ?e + 1" by simp
    ultimately show "\<bar>d - ?u\<bar> < pow2 (?e - 52 + 53)" by (simp only:)
  qed
  have near: "\<bar>dround (d * a) - d * a\<bar> \<le> \<bar>(d - ?u) - d * a\<bar>"
    using c1 by (rule dround_nearest)
  have near': "\<bar>d - d * a\<bar> \<le> \<bar>(d - ?u) - d * a\<bar>" using near by (simp only: eq)
  have upos: "0 < pow2 (?e - 53)" by simp
  have tie: "d - d * a = pow2 (?e - 53)"
    using near' half uu upos by linarith
  have d: "d = pow2 ?e"
  proof (rule ccontr)
    assume "d \<noteq> pow2 ?e"
    then have "pow2 ?e < d" using lo by simp
    moreover have "0 < 1 - a" using assms(2) by simp
    ultimately have "pow2 ?e * (1 - a) < d * (1 - a)" by (simp add: mult_less_cancel_right)
    moreover have "pow2 ?e * pow2 (- 53) \<le> pow2 ?e * (1 - a)"
      using gap by (intro mult_left_mono) simp_all
    ultimately have "pow2 (?e - 53) < d * (1 - a)" using pe by linarith
    then show False using tie by (simp add: algebra_simps)
  qed
  have val: "d * a = of_int (2 ^ 53 - 1) * pow2 (?e - 53)"
  proof -
    have "of_int (2 ^ 53) * pow2 (?e - 53) = pow2 ?e" by (rule pow2_shift) simp
    then have "of_int (2 ^ 53 - 1) * pow2 (?e - 53) = pow2 ?e - pow2 (?e - 53)"
      by (simp add: algebra_simps)
    then show ?thesis using tie d by linarith
  qed
  have "dround (d * a) = d * a"
  proof (rule d_grid_rep [OF val])
    show "- 1074 \<le> ?e - 53" using big by simp
    have "0 < d * a" using dpos assms(1) by simp
    moreover have "d * a < pow2 ?e" using tie d pow2_pos [of "?e - 53"] by linarith
    ultimately show "\<bar>d * a\<bar> < pow2 (?e - 53 + 53)" by simp
  qed
  then show False using eq tie pow2_pos [of "?e - 53"] by linarith
qed

lemma dround_pow2_m149: "dround (pow2 (- 149)) = pow2 (- 149)"
proof (rule d_grid_rep [where n = 1 and k = "- 149"])
  show "pow2 (- 149) = of_int 1 * pow2 (- 149)" by simp
  show "- 1074 \<le> (- 149 :: int)" by simp
  show "\<bar>pow2 (- 149)\<bar> < pow2 (- 149 + 53)" by simp
qed

lemma dround_nonneg': "0 \<le> x \<Longrightarrow> 0 \<le> dround x"
  using dround_mono [of 0 x] by simp

text \<open>
  The rounding error is at most half a unit of the last place; a quarter of a
  double-precision number is one, above the subnormal range; and two different
  single-precision numbers are at least \<open>2\<^sup>e\<^sup>-\<^sup>2\<^sup>4\<close> apart, where \<open>e\<close> is the exponent of the one
  of larger magnitude.
\<close>

lemma dround_error_pos:
  assumes "0 < x"
  shows "\<bar>dround x - x\<bar> \<le> pow2 (f64_exponent x - 53)"
proof -
  let ?u = "pow2 (f64_exponent x - 52)"
  let ?n = "rne (x / ?u)"
  have h: "pow2 (f64_exponent x - 53) + pow2 (f64_exponent x - 53) = ?u"
  proof -
    have "of_int (2 ^ 1) * pow2 (f64_exponent x - 53) = ?u" by (rule pow2_shift) simp
    then show ?thesis by simp
  qed
  have b: "of_int ?n - 1 / 2 \<le> x / ?u \<and> x / ?u \<le> of_int ?n + 1 / 2" by (rule rne_bounds)
  have "(of_int ?n - 1 / 2) * ?u \<le> x / ?u * ?u"
    using b by (intro mult_right_mono) simp_all
  then have lo: "of_int ?n * ?u - ?u / 2 \<le> x" by (simp add: algebra_simps)
  have "x / ?u * ?u \<le> (of_int ?n + 1 / 2) * ?u"
    using b by (intro mult_right_mono) simp_all
  then have hi: "x \<le> of_int ?n * ?u + ?u / 2" by (simp add: algebra_simps)
  have "\<bar>of_int ?n * ?u - x\<bar> \<le> pow2 (f64_exponent x - 53)"
    using lo hi h by linarith
  then show ?thesis unfolding dround_pos [OF assms] .
qed

lemma dround_error: "\<bar>dround x - x\<bar> \<le> pow2 (f64_exponent x - 53)"
proof -
  consider "x = 0" | "0 < x" | "x < 0" by linarith
  then show ?thesis
  proof cases
    case 1
    then show ?thesis by simp
  next
    case 2
    then show ?thesis by (rule dround_error_pos)
  next
    case 3
    then have "\<bar>dround (- x) - (- x)\<bar> \<le> pow2 (f64_exponent (- x) - 53)"
      by (intro dround_error_pos) simp
    then show ?thesis by (simp add: dround_minus)
  qed
qed

lemma dexponent_le:
  assumes "x \<noteq> 0" "\<bar>x\<bar> < pow2 (k + 1)" "- 1022 \<le> k"
  shows "f64_exponent x \<le> k"
proof (cases "- 1022 < f64_exponent x")
  case True
  have "pow2 (f64_exponent x) \<le> \<bar>x\<bar>" using assms(1) True by (rule dexponent_lower)
  then have "pow2 (f64_exponent x) < pow2 (k + 1)" using assms(2) by linarith
  then show ?thesis by simp
next
  case False
  then show ?thesis using assms(3) by linarith
qed

lemma dround_quarter:
  assumes "dround d = d" "pow2 (- 1020) \<le> d"
  shows "dround (d / 4) = d / 4"
proof -
  have dpos: "0 < d" using assms(2) pow2_pos [of "- 1020"] by linarith
  let ?e = "f64_exponent d"
  have big: "- 1020 \<le> ?e"
  proof (rule ccontr)
    assume "\<not> - 1020 \<le> ?e"
    then have "?e + 1 \<le> - 1020" by simp
    then have "pow2 (?e + 1) \<le> pow2 (- 1020)" by (simp only: pow2_le_iff)
    moreover have "\<bar>d\<bar> < pow2 (?e + 1)" using dpos by (intro dexponent_upper) simp
    ultimately show False using assms(2) dpos by linarith
  qed
  obtain n :: int where n: "d = of_int n * pow2 (?e - 52)"
    using d_on_grid [OF dpos assms(1)] by blast
  have q: "pow2 (?e - 52) / 4 = pow2 (?e - 54)"
  proof -
    have "of_int (2 ^ 2) * pow2 (?e - 54) = pow2 (?e - 52)" by (rule pow2_shift) simp
    then show ?thesis by simp
  qed
  have "d / 4 = of_int n * (pow2 (?e - 52) / 4)" using n by simp
  then have rep: "d / 4 = of_int n * pow2 (?e - 54)" by (simp only: q)
  have h: "pow2 (?e + 1) / 4 = pow2 (?e - 1)"
  proof -
    have "of_int (2 ^ 2) * pow2 (?e - 1) = pow2 (?e + 1)" by (rule pow2_shift) simp
    then show ?thesis by simp
  qed
  have "d < pow2 (?e + 1)" using dexponent_upper [of d] dpos by simp
  then have "d / 4 < pow2 (?e + 1) / 4" by simp
  then have "d / 4 < pow2 (?e - 1)" by (simp only: h)
  moreover have "?e - 54 + 53 = ?e - 1" by simp
  moreover have "\<bar>d / 4\<bar> = d / 4" using dpos by simp
  ultimately have b: "\<bar>d / 4\<bar> < pow2 (?e - 54 + 53)" by (simp only:)
  have k: "- 1074 \<le> ?e - 54" using big by simp
  show ?thesis using rep k b by (rule d_grid_rep)
qed

lemma grid_coarsen:
  assumes "j \<le> k"
  shows "\<exists>m::int. of_int n * pow2 k = of_int m * pow2 j"
proof -
  have "of_int (2 ^ nat (k - j)) * pow2 j = pow2 k"
    using assms by (intro pow2_shift) simp
  then have "of_int n * pow2 k = of_int (n * 2 ^ nat (k - j)) * pow2 j" by simp
  then show ?thesis by blast
qed

lemma f32_gap:
  assumes "fround c = c" "fround t = t" "c \<noteq> t" "\<bar>c\<bar> \<le> \<bar>t\<bar>"
  shows "pow2 (f32_exponent t - 24) \<le> \<bar>t - c\<bar>"
proof -
  let ?e = "f32_exponent t"
  let ?ec = "f32_exponent c"
  let ?g = "pow2 (?e - 24)"
  have t0: "t \<noteq> 0" using assms(3,4) by auto
  obtain nt :: int where nt: "t = of_int nt * pow2 (?e - 23)"
    using f32_on_grid [OF assms(2)] by blast
  obtain mt :: int where mt: "t = of_int mt * ?g"
    using grid_coarsen [of "?e - 24" "?e - 23" nt] nt by auto
  have on_grid_gap: "?g \<le> \<bar>t - c\<bar>" if "c = of_int mc * ?g" for mc :: int
  proof -
    have "t - c = of_int (mt - mc) * ?g"
      using mt that by (simp add: algebra_simps)
    moreover have "mt - mc \<noteq> 0" using assms(3) mt that by auto
    then have "1 \<le> \<bar>real_of_int (mt - mc)\<bar>" by linarith
    then have "1 * ?g \<le> \<bar>real_of_int (mt - mc)\<bar> * ?g"
      by (intro mult_right_mono) simp_all
    ultimately show ?thesis by (simp add: abs_mult)
  qed
  show ?thesis
  proof (cases "c = 0")
    case True
    then have "c = of_int 0 * ?g" by simp
    then show ?thesis by (rule on_grid_gap)
  next
    case False
    have le: "?ec \<le> ?e" using False assms(4) by (rule exponent_mono)
    obtain nc :: int where nc: "c = of_int nc * pow2 (?ec - 23)"
      using f32_on_grid [OF assms(1)] by blast
    show ?thesis
    proof (cases "?e - 1 \<le> ?ec")
      case True
      then have "?e - 24 \<le> ?ec - 23" by simp
      then obtain mc :: int where "c = of_int mc * ?g"
        using grid_coarsen [of "?e - 24" "?ec - 23" nc] nc by auto
      then show ?thesis by (rule on_grid_gap)
    next
      case far: False
      then have "?ec + 1 \<le> ?e - 1" by simp
      then have "pow2 (?ec + 1) \<le> pow2 (?e - 1)" by (simp only: pow2_le_iff)
      moreover have "\<bar>c\<bar> < pow2 (?ec + 1)" using False by (rule exponent_upper)
      ultimately have c: "\<bar>c\<bar> < pow2 (?e - 1)" by linarith
      have "- 126 < ?e" using far exponent_ge [of c] by linarith
      then have t: "pow2 ?e \<le> \<bar>t\<bar>" using t0 by (intro exponent_lower)
      have h: "pow2 (?e - 1) + pow2 (?e - 1) = pow2 ?e"
      proof -
        have "of_int (2 ^ 1) * pow2 (?e - 1) = pow2 ?e" by (rule pow2_shift) simp
        then show ?thesis by simp
      qed
      have "?g \<le> pow2 (?e - 1)" by simp
      then show ?thesis using c t h by linarith
    qed
  qed
qed

text \<open>The literals \<open>0.05\<close> and \<open>0.04\<close> of the two \<open>useFrame\<close> loops.\<close>

lemma is_f64_dround: "is_f64 (dround x)"
  by (simp add: is_f64_def)

lemma dround_literal_005: "dround 0.05 = 3602879701896397 / 2 ^ 56"
  using dround_eval [of "- 5" "0.05"] by (simp add: pow2_eval rne_def)

lemma dround_literal_004: "dround 0.04 = 5764607523034235 / 2 ^ 57"
  using dround_eval [of "- 5" "0.04"] by (simp add: pow2_eval rne_def)

lemma literal_005_range: "0 < dround 0.05" "dround 0.05 < 1" "dround 0.05 \<le> 1 / 4"
  unfolding dround_literal_005 by simp_all

lemma literal_004_range: "0 < dround 0.04" "dround 0.04 < 1" "dround 0.04 \<le> 1 / 4"
  unfolding dround_literal_004 by simp_all

lemma is_f64_half: "is_f64 (1 / 2)"
  using dround_eval [of "- 1" "1 / 2"] by (simp add: is_f64_def pow2_eval rne_def)

section \<open>Exponential smoothing\<close>

text \<open>
  The rounded increment of an update lies between 0 and the difference \<open>t - c\<close>. So one
  update moves the entry towards the target and not past it; with \<open>alpha\<close> up to 1/4 it
  does not land on the target.
\<close>

lemma lerp_increment:
  assumes "0 < alpha" "alpha < 1" "is_f64 alpha" "is_f32 t" "is_f32 c" "c < t"
  shows "0 \<le> dround (dround (t - c) * alpha) \<and> dround (dround (t - c) * alpha) \<le> t - c"
proof -
  have fc: "fround c = c" and ft: "fround t = t" using assms by (simp_all add: is_f32_def)
  have da: "dround alpha = alpha" using assms(3) by (simp add: is_f64_def)
  let ?x = "t - c"
  let ?d = "dround ?x"
  let ?m = "dround (?d * alpha)"
  have x: "pow2 (- 149) \<le> ?x" using fc ft assms(6) by (rule f32_difference_large)
  have "dround (pow2 (- 149)) \<le> ?d" using x by (rule dround_mono)
  then have d149: "pow2 (- 149) \<le> ?d" by (simp only: dround_pow2_m149)
  have "pow2 (- 1021) \<le> pow2 (- 149)" by simp
  then have dbig: "pow2 (- 1021) \<le> ?d" using d149 by linarith
  have dpos: "0 < ?d" using d149 pow2_pos [of "- 149"] by linarith
  have md: "?m < ?d" using assms(1,2) da _ dbig by (rule product_below) simp
  have m0: "0 \<le> ?m" using dpos assms(1) by (intro dround_nonneg') simp
  have mx: "?m \<le> ?x"
  proof (rule ccontr)
    assume "\<not> ?m \<le> ?x"
    then have xm: "?x < ?m" by simp
    have "dround ?m = ?m" by simp
    then have "\<bar>?d - ?x\<bar> \<le> \<bar>?m - ?x\<bar>" by (rule dround_nearest)
    then show False using xm md by simp
  qed
  show ?thesis using m0 mx by simp
qed


lemma lerp_update_up:
  assumes "0 < alpha" "alpha < 1" "is_f64 alpha" "is_f32 t" "is_f32 c" "c \<le> t"
  shows "c \<le> lerp_update alpha t c \<and> lerp_update alpha t c \<le> t"
proof (cases "c = t")
  case True
  have "dround t = t" "fround t = t" using assms(4) f32_is_f64 by (simp_all add: is_f32_def)
  then show ?thesis using True by (simp add: lerp_update_def)
next
  case False
  then have lt: "c < t" using assms(6) by simp
  have fc: "fround c = c" and ft: "fround t = t" using assms by (simp_all add: is_f32_def)
  have dc: "dround c = c" and dt: "dround t = t" using fc ft by (simp_all add: f32_is_f64)
  let ?m = "dround (dround (t - c) * alpha)"
  let ?y = "c + ?m"
  have m: "0 \<le> ?m \<and> ?m \<le> t - c" using assms(1,2,3,4,5) lt by (rule lerp_increment)
  have "dround c \<le> dround ?y" using m by (intro dround_mono) simp
  moreover have "dround ?y \<le> dround t" using m by (intro dround_mono) simp
  ultimately have yd: "c \<le> dround ?y" "dround ?y \<le> t" using dc dt by simp_all
  have "fround c \<le> fround (dround ?y)" using yd(1) by (rule fround_mono)
  moreover have "fround (dround ?y) \<le> fround t" using yd(2) by (rule fround_mono)
  ultimately show ?thesis using fc ft by (simp add: lerp_update_def)
qed

lemma lerp_update_minus: "lerp_update alpha (- t) (- c) = - lerp_update alpha t c"
proof -
  have 1: "- t - - c = - (t - c)" by simp
  have 2: "- c + - x = - (c + x)" for x :: real by simp
  show ?thesis
    unfolding lerp_update_def 1 dround_minus mult_minus_left 2 fround_minus ..
qed

lemma is_f32_minus: "is_f32 x \<Longrightarrow> is_f32 (- x)"
  by (simp add: is_f32_def fround_minus)

lemma lerp_update_down:
  assumes "0 < alpha" "alpha < 1" "is_f64 alpha" "is_f32 t" "is_f32 c" "t \<le> c"
  shows "t \<le> lerp_update alpha t c \<and> lerp_update alpha t c \<le> c"
proof -
  have "- c \<le> lerp_update alpha (- t) (- c) \<and> lerp_update alpha (- t) (- c) \<le> - t"
    using assms by (intro lerp_update_up is_f32_minus) simp_all
  then show ?thesis by (simp add: lerp_update_minus)
qed

lemma lerp_update_not_target_up:
  assumes "0 < alpha" "alpha \<le> 1 / 4" "is_f64 alpha" "is_f32 t" "is_f32 c" "c < t"
  shows "lerp_update alpha t c \<noteq> t"
proof
  assume reach: "lerp_update alpha t c = t"
  have fc: "fround c = c" and ft: "fround t = t" using assms by (simp_all add: is_f32_def)
  have dc: "dround c = c" using fc by (rule f32_is_f64)
  let ?x = "t - c"
  let ?d = "dround ?x"
  let ?m = "dround (?d * alpha)"
  let ?y = "c + ?m"
  have xpos: "0 < ?x" using assms(6) by simp
  have x149: "pow2 (- 149) \<le> ?x" using fc ft assms(6) by (rule f32_difference_large)
  \<comment> \<open>the rounded difference\<close>
  have "dround (pow2 (- 149)) \<le> ?d" using x149 by (rule dround_mono)
  then have d149: "pow2 (- 149) \<le> ?d" by (simp only: dround_pow2_m149)
  have dpos: "0 < ?d" using d149 pow2_pos [of "- 149"] by linarith
  have ex: "- 1022 < f64_exponent ?x"
  proof (rule ccontr)
    assume "\<not> - 1022 < f64_exponent ?x"
    then have "f64_exponent ?x = - 1022" using dexponent_ge [of ?x] by linarith
    then have "\<bar>?x\<bar> < pow2 (- 1021)" using dexponent_upper [of ?x] xpos by simp
    moreover have "pow2 (- 1021) \<le> pow2 (- 149)" by simp
    ultimately show False using x149 xpos by linarith
  qed
  have "pow2 (f64_exponent ?x) \<le> \<bar>?x\<bar>" using xpos ex by (intro dexponent_lower) simp_all
  then have "pow2 (- 53) * pow2 (f64_exponent ?x) \<le> pow2 (- 53) * ?x"
    using xpos by (intro mult_left_mono) simp_all
  moreover have "pow2 (- 53) * pow2 (f64_exponent ?x) = pow2 (f64_exponent ?x - 53)"
    by (simp add: pow2_add [symmetric])
  moreover have "\<bar>?d - ?x\<bar> \<le> pow2 (f64_exponent ?x - 53)" by (rule dround_error)
  ultimately have d: "?d \<le> ?x + pow2 (- 53) * ?x" by linarith
  \<comment> \<open>the rounded product\<close>
  have "pow2 (- 1020) \<le> pow2 (- 149)" by simp
  then have "pow2 (- 1020) \<le> ?d" using d149 by linarith
  then have q: "dround (?d / 4) = ?d / 4" by (intro dround_quarter) simp_all
  have "?d * alpha \<le> ?d * (1 / 4)" using dpos assms(2) by (intro mult_left_mono) simp_all
  then have "?d * alpha \<le> ?d / 4" by simp
  then have "?m \<le> dround (?d / 4)" by (rule dround_mono)
  then have m: "?m \<le> ?d / 4" by (simp only: q)
  have m0: "0 \<le> ?m" using dpos assms(1) by (intro dround_nonneg') simp
  have "alpha < 1" using assms(2) by simp
  then have mx: "?m \<le> ?x" using lerp_increment [OF assms(1) _ assms(3,4,5,6)] by simp
  \<comment> \<open>the rounded sum\<close>
  define b where "b = (if \<bar>c\<bar> \<le> \<bar>t\<bar> then t else c)"
  let ?E = "f32_exponent b"
  have b0: "b \<noteq> 0" using assms(6) by (auto simp: b_def)
  have gap: "pow2 (?E - 24) \<le> ?x"
  proof (cases "\<bar>c\<bar> \<le> \<bar>t\<bar>")
    case True
    then have b: "b = t" by (simp add: b_def)
    have "pow2 (f32_exponent t - 24) \<le> \<bar>t - c\<bar>"
      using fc ft assms(6) True by (intro f32_gap) simp_all
    then show ?thesis unfolding b using xpos by linarith
  next
    case False
    then have b: "b = c" by (simp add: b_def)
    have "pow2 (f32_exponent c - 24) \<le> \<bar>c - t\<bar>"
      using fc ft assms(6) False by (intro f32_gap) simp_all
    then show ?thesis unfolding b using xpos by linarith
  qed
  have "\<bar>b\<bar> < pow2 (?E + 1)" using b0 by (rule exponent_upper)
  moreover have "\<bar>c\<bar> \<le> \<bar>b\<bar>" "\<bar>t\<bar> \<le> \<bar>b\<bar>" by (simp_all add: b_def)
  ultimately have y: "\<bar>?y\<bar> < pow2 (?E + 1)" using m0 mx by linarith
  have err: "\<bar>dround ?y - ?y\<bar> \<le> pow2 (?E - 53)"
  proof (cases "?y = 0")
    case True
    then show ?thesis by simp
  next
    case False
    have "- 1022 \<le> ?E" using exponent_ge [of b] by linarith
    then have "f64_exponent ?y \<le> ?E" using False y by (intro dexponent_le)
    then have "pow2 (f64_exponent ?y - 53) \<le> pow2 (?E - 53)" by simp
    moreover have "\<bar>dround ?y - ?y\<bar> \<le> pow2 (f64_exponent ?y - 53)" by (rule dround_error)
    ultimately show ?thesis by linarith
  qed
  have "pow2 (- 29) * pow2 (?E - 24) \<le> pow2 (- 29) * ?x"
    using gap by (intro mult_left_mono) simp_all
  moreover have "pow2 (- 29) * pow2 (?E - 24) = pow2 (?E - 53)"
    by (simp add: pow2_add [symmetric])
  ultimately have yd: "dround ?y \<le> ?y + pow2 (- 29) * ?x" using err by linarith
  \<comment> \<open>the store\<close>
  have "dround c \<le> dround ?y" using m0 by (intro dround_mono) simp
  then have cy: "c \<le> dround ?y" using dc by simp
  have "\<bar>fround (dround ?y) - dround ?y\<bar> \<le> \<bar>c - dround ?y\<bar>"
    using fc by (rule fround_nearest)
  then have "\<bar>t - dround ?y\<bar> \<le> \<bar>c - dround ?y\<bar>"
    using reach by (simp add: lerp_update_def)
  then have mid: "t - dround ?y \<le> dround ?y - c" using cy by simp
  have p53: "pow2 (- 53) * ?x \<le> ?x / 8"
  proof -
    have "pow2 (- 53) \<le> pow2 (- 3)" by simp
    then have "pow2 (- 53) * ?x \<le> pow2 (- 3) * ?x" using xpos by (intro mult_right_mono) simp_all
    then show ?thesis by (simp add: pow2_eval)
  qed
  have p29: "pow2 (- 29) * ?x \<le> ?x / 8"
  proof -
    have "pow2 (- 29) \<le> pow2 (- 3)" by simp
    then have "pow2 (- 29) * ?x \<le> pow2 (- 3) * ?x" using xpos by (intro mult_right_mono) simp_all
    then show ?thesis by (simp add: pow2_eval)
  qed
  have arith: False
    if "t - yd \<le> yd - c" "yd \<le> c + m + p" "m \<le> d / 4" "d \<le> x + q" "q \<le> x / 8"
      "p \<le> x / 8" "0 < x" "x = t - c"
    for yd m p d q x :: real
    using that by linarith
  show False using mid yd m d p53 p29 xpos refl by (rule arith)
qed

lemma lerp_update_not_target:
  assumes "0 < alpha" "alpha \<le> 1 / 4" "is_f64 alpha" "is_f32 t" "is_f32 c" "c \<noteq> t"
  shows "lerp_update alpha t c \<noteq> t"
proof (cases "c < t")
  case True
  then show ?thesis using assms by (intro lerp_update_not_target_up) simp_all
next
  case False
  then have "- c < - t" using assms(6) by simp
  then have "lerp_update alpha (- t) (- c) \<noteq> - t"
    using assms by (intro lerp_update_not_target_up is_f32_minus) simp_all
  then show ?thesis by (simp add: lerp_update_minus)
qed

lemma is_f32_2: "is_f32 2"
  using fround_eval [of 1 2] by (simp add: is_f32_def pow2_eval rne_def)

lemma is_f32_0: "is_f32 0"
  by (simp add: is_f32_def)

lemma stall_value: "is_f32 (2 - 1 / 2 ^ 22)"
  using fround_eval [of 0 "2 - 1 / 2 ^ 22"] by (simp add: is_f32_def pow2_eval rne_def)

lemma pred_value: "is_f32 (2 - 1 / 2 ^ 23)"
  using fround_eval [of 0 "2 - 1 / 2 ^ 23"] by (simp add: is_f32_def pow2_eval rne_def)

lemma stall_step: "lerp_update (dround 0.05) 2 (2 - 1 / 2 ^ 22) = 2 - 1 / 2 ^ 22"
proof -
  have 1: "dround (2 - (2 - 1 / 2 ^ 22)) = 1 / 2 ^ 22"
    using dround_eval [of "- 22" "1 / 2 ^ 22"] by (simp add: pow2_eval rne_def)
  have 2: "dround (1 / 2 ^ 22 * (3602879701896397 / 2 ^ 56)) = 3602879701896397 / 2 ^ 78"
    using dround_eval [of "- 27" "3602879701896397 / 2 ^ 78"] by (simp add: pow2_eval rne_def)
  have 3: "dround (2 - 1 / 2 ^ 22 + 3602879701896397 / 2 ^ 78) = 9007198234686259 / 2 ^ 52"
    using dround_eval [of 0 "2 - 1 / 2 ^ 22 + 3602879701896397 / 2 ^ 78"]
    by (simp add: pow2_eval rne_def)
  have 4: "fround (9007198234686259 / 2 ^ 52) = 2 - 1 / 2 ^ 22"
    using fround_eval [of 0 "9007198234686259 / 2 ^ 52"] by (simp add: pow2_eval rne_def)
  show ?thesis
    unfolding lerp_update_def dround_literal_005 1 2 3 4 ..
qed

lemma reach_step: "lerp_update (1 / 2) 2 (2 - 1 / 2 ^ 23) = 2"
proof -
  have 1: "dround (2 - (2 - 1 / 2 ^ 23)) = 1 / 2 ^ 23"
    using dround_eval [of "- 23" "1 / 2 ^ 23"] by (simp add: pow2_eval rne_def)
  have 2: "dround (1 / 2 ^ 23 * (1 / 2)) = 1 / 2 ^ 24"
    using dround_eval [of "- 24" "1 / 2 ^ 24"] by (simp add: pow2_eval rne_def)
  have 3: "dround (2 - 1 / 2 ^ 23 + 1 / 2 ^ 24) = 33554431 / 2 ^ 24"
    using dround_eval [of 0 "33554431 / 2 ^ 24"] by (simp add: pow2_eval rne_def)
  have 4: "fround (33554431 / 2 ^ 24) = 2"
    using fround_eval [of 0 "33554431 / 2 ^ 24"] by (simp add: pow2_eval rne_def)
  show ?thesis
    unfolding lerp_update_def 1 2 3 4 ..
qed

lemma first_step: "lerp_update (dround 0.05) 2 0 = 13421773 / 134217728"
proof -
  have 1: "dround (2 - 0) = 2"
    using dround_eval [of 1 2] by (simp add: pow2_eval rne_def)
  have 2: "dround (2 * (3602879701896397 / 2 ^ 56)) = 3602879701896397 / 2 ^ 55"
    using dround_eval [of "- 4" "3602879701896397 / 2 ^ 55"] by (simp add: pow2_eval rne_def)
  have 3: "dround (0 + 3602879701896397 / 2 ^ 55) = 3602879701896397 / 2 ^ 55"
    using 2 by simp
  have 4: "fround (3602879701896397 / 2 ^ 55) = 13421773 / 134217728"
    using fround_eval [of "- 4" "3602879701896397 / 2 ^ 55"] by (simp add: pow2_eval rne_def)
  show ?thesis
    unfolding lerp_update_def dround_literal_005 1 2 3 4 ..
qed

lemma same_step:
  assumes "is_f32 t"
  shows "lerp_update alpha t t = t"
proof -
  have "fround t = t" using assms by (simp add: is_f32_def)
  then show ?thesis by (simp add: lerp_update_def f32_is_f64)
qed

lemma lerp_iter_step:
  "lerp_iter alpha t (Suc n) cur = lerp_update alpha t (lerp_iter alpha t n cur)"
  by (induction n arbitrary: cur) simp_all

lemma is_f32_lerp_update: "is_f32 (lerp_update alpha t cur)"
  by (simp add: is_f32_def lerp_update_def)

lemma lerp_update_between:
  assumes "0 < alpha" "alpha < 1" "is_f64 alpha" "is_f32 t" "is_f32 c"
  shows "(c \<le> t \<longrightarrow> c \<le> lerp_update alpha t c \<and> lerp_update alpha t c \<le> t) \<and>
         (t \<le> c \<longrightarrow> t \<le> lerp_update alpha t c \<and> lerp_update alpha t c \<le> c)"
  using lerp_update_up [OF assms] lerp_update_down [OF assms] by blast

lemma lerp_iter_invariant:
  assumes "0 < alpha" "alpha < 1" "is_f64 alpha" "is_f32 t" "is_f32 cur"
  shows "is_f32 (lerp_iter alpha t n cur) \<and>
         (cur \<le> t \<longrightarrow> cur \<le> lerp_iter alpha t n cur \<and> lerp_iter alpha t n cur \<le> t) \<and>
         (t \<le> cur \<longrightarrow> t \<le> lerp_iter alpha t n cur \<and> lerp_iter alpha t n cur \<le> cur) \<and>
         (alpha \<le> 1 / 4 \<longrightarrow> cur \<noteq> t \<longrightarrow> lerp_iter alpha t n cur \<noteq> t)"
proof (induction n)
  case 0
  show ?case using assms by simp
next
  case (Suc n)
  let ?p = "lerp_iter alpha t n cur"
  have f: "is_f32 ?p" using Suc by simp
  have b: "(?p \<le> t \<longrightarrow> ?p \<le> lerp_update alpha t ?p \<and> lerp_update alpha t ?p \<le> t) \<and>
           (t \<le> ?p \<longrightarrow> t \<le> lerp_update alpha t ?p \<and> lerp_update alpha t ?p \<le> ?p)"
    using assms(1,2,3,4) f by (rule lerp_update_between)
  have nt: "alpha \<le> 1 / 4 \<Longrightarrow> ?p \<noteq> t \<Longrightarrow> lerp_update alpha t ?p \<noteq> t"
    using assms(1,3,4) f by (intro lerp_update_not_target) simp_all
  show ?case
    unfolding lerp_iter_step using Suc b nt is_f32_lerp_update [of alpha t ?p]
    by (auto simp del: lerp_iter.simps)
qed




section \<open>The sphere sampler and the spiral\<close>

lemma getRandomSpherePoint_eq:
  "getRandomSpherePoint radius g =
     (let theta = 2 * pi * g 0;
          phi = arccos (2 * g 1 - 1);
          r = root 3 (g 2) * radius
      in ((r * sin phi * cos theta, r * sin phi * sin theta, r * cos phi), \<lambda>n. g (n + 3)))"
  by (simp add: getRandomSpherePoint_def Math_random_def Let_def eval_nat_numeral)

lemma sphere_norm_aux:
  fixes r s c s' c' :: real
  assumes "s\<^sup>2 + c\<^sup>2 = 1" "s'\<^sup>2 + c'\<^sup>2 = 1"
  shows "(r * s * c')\<^sup>2 + (r * s * s')\<^sup>2 + (r * c)\<^sup>2 = r\<^sup>2"
proof -
  have "(r * s * c')\<^sup>2 + (r * s * s')\<^sup>2 + (r * c)\<^sup>2 = r\<^sup>2 * (s\<^sup>2 * (s'\<^sup>2 + c'\<^sup>2) + c\<^sup>2)"
    by (simp add: power_mult_distrib algebra_simps)
  then show ?thesis using assms by simp
qed

lemma sphere_norm:
  fixes r :: real
  shows "(r * sin phi * cos theta)\<^sup>2 + (r * sin phi * sin theta)\<^sup>2 + (r * cos phi)\<^sup>2 = r\<^sup>2"
  by (rule sphere_norm_aux) simp_all

text \<open>
  C5. With the draws u, v, w (the first three of the source, each in \<open>[0, 1)\<close>) the sampler
  returns \<open>(r sin \<phi> cos \<theta>, r sin \<phi> sin \<theta>, r cos \<phi>)\<close> for \<open>\<theta> = 2\<pi>u\<close>,
  \<open>\<phi> = arccos (2v - 1)\<close>, \<open>r = cbrt w \<cdot> radius\<close>, and has consumed three draws. So
  \<open>r\<^sup>3 = w \<cdot> radius\<^sup>3\<close>; the distance of the returned point from the origin, cubed, is
  \<open>w \<cdot> |radius|\<^sup>3\<close>, and for a radius that is not negative it lies between 0 and
  \<open>radius\<^sup>3\<close>.
\<close>

theorem sphere_point_volume_uniform:
  assumes "unit_draws g"
  shows "getRandomSpherePoint radius g =
     (let theta = 2 * pi * g 0;
          phi = arccos (2 * g 1 - 1);
          r = root 3 (g 2) * radius
      in ((r * sin phi * cos theta, r * sin phi * sin theta, r * cos phi), \<lambda>n. g (n + 3))) \<and>
     (root 3 (g 2) * radius) ^ 3 = g 2 * radius ^ 3 \<and>
     (case fst (getRandomSpherePoint radius g) of (x, y, z) \<Rightarrow>
        (sqrt (x\<^sup>2 + y\<^sup>2 + z\<^sup>2)) ^ 3 = g 2 * \<bar>radius\<bar> ^ 3) \<and>
     (0 \<le> radius \<longrightarrow> 0 \<le> g 2 * radius ^ 3 \<and> g 2 * radius ^ 3 \<le> radius ^ 3)"
proof -
  have w: "0 \<le> g 2" "g 2 < 1" using assms by (simp_all add: unit_draws_def)
  have cube: "(root 3 (g 2) * radius) ^ 3 = g 2 * radius ^ 3"
    by (simp add: power_mult_distrib odd_real_root_pow)
  have r0: "0 \<le> root 3 (g 2)" using w by simp
  have "sqrt ((root 3 (g 2) * radius)\<^sup>2) = \<bar>root 3 (g 2) * radius\<bar>"
    by (rule real_sqrt_abs)
  also have "\<dots> = root 3 (g 2) * \<bar>radius\<bar>"
    using r0 by (simp add: abs_mult)
  finally have "sqrt ((root 3 (g 2) * radius)\<^sup>2) ^ 3 = (root 3 (g 2) * \<bar>radius\<bar>) ^ 3"
    by (rule arg_cong)
  also have "\<dots> = g 2 * \<bar>radius\<bar> ^ 3"
    by (simp add: power_mult_distrib odd_real_root_pow)
  finally have nrm: "(case fst (getRandomSpherePoint radius g) of (x, y, z) \<Rightarrow>
        (sqrt (x\<^sup>2 + y\<^sup>2 + z\<^sup>2)) ^ 3 = g 2 * \<bar>radius\<bar> ^ 3)"
    by (simp add: getRandomSpherePoint_eq Let_def sphere_norm)
  have rng: "0 \<le> radius \<Longrightarrow> 0 \<le> g 2 * radius ^ 3 \<and> g 2 * radius ^ 3 \<le> radius ^ 3"
    using w by (simp add: mult_left_le_one_le)
  show ?thesis using getRandomSpherePoint_eq cube nrm rng by blast
qed

theorem sphere_point_volume_uniform_witness:
  "unit_draws (\<lambda>n. 1 / 2) \<and> (0::real) \<le> CHAOS_RADIUS \<and>
   (root 3 (1 / 2) * CHAOS_RADIUS) ^ 3 = 1 / 2 * CHAOS_RADIUS ^ 3 \<and>
   (case fst (getRandomSpherePoint CHAOS_RADIUS (\<lambda>n. 1 / 2)) of (x, y, z) \<Rightarrow>
      (sqrt (x\<^sup>2 + y\<^sup>2 + z\<^sup>2)) ^ 3 = 1 / 2 * \<bar>CHAOS_RADIUS\<bar> ^ 3) \<and>
   1 / 2 * CHAOS_RADIUS ^ 3 \<le> CHAOS_RADIUS ^ 3"
proof -
  have h: "unit_draws (\<lambda>n. 1 / 2)" by (simp add: unit_draws_def)
  have r: "(0::real) \<le> CHAOS_RADIUS" by (simp add: CHAOS_RADIUS_def)
  show ?thesis
    using h r sphere_point_volume_uniform [OF h, of CHAOS_RADIUS] by simp
qed

lemma spiral_point_first:
  "fst (spiral_point 0 g)
     = (4.5 + (g 0 - 0.5) * 0.6, - 5.5 + (g 2 - 0.5) * 0.6, (g 1 - 0.5) * 0.6)"
  by (simp add: spiral_point_def spiral_y_def spiral_r_def spiral_theta_def Math_random_def
      TREE_RADIUS_def TREE_HEIGHT_def Let_def eval_nat_numeral)

lemma jitter_offset:
  assumes "0 \<le> a" "a < 1"
  shows "\<bar>(a - 0.5) * 0.6\<bar> \<le> (0.3::real)"
proof -
  have e: "(a - 0.5) * 0.6 = 3 / 5 * a - 3 / 10" by (simp add: field_simps)
  have "\<bar>3 / 5 * a - 3 / 10\<bar> \<le> 3 / 10" using assms by linarith
  then show ?thesis unfolding e by simp
qed




section \<open>Photo placement\<close>

lemma Polaroid_locals_simps:
  "loc_y (Polaroid_locals i n) =
     (if n \<le> 1 then - 1 / 4 else - 4 + real i / (real n - 1) * (15 / 2))"
  "loc_r (Polaroid_locals i n) = (1 - (loc_y (Polaroid_locals i n) + 11 / 2) / 11) * 4 + 3 / 2"
  "loc_angle (Polaroid_locals i n) = real i * 2.39996"
  by (simp_all add: Polaroid_locals_def Let_def TREE_HEIGHT_def TREE_RADIUS_def)

lemma Polaroid_target_y: "fst (snd (Polaroid_target i n)) = loc_y (Polaroid_locals i n)"
  by (simp add: Polaroid_target_def Let_def)

lemma Polaroid_target_zero:
  "Polaroid_target 0 n = (loc_r (Polaroid_locals 0 n), loc_y (Polaroid_locals 0 n), 0)"
  by (simp add: Polaroid_target_def Let_def Polaroid_locals_simps(3))

lemma Polaroid_memo_targetPos:
  "targetPos (fst (Polaroid_memo lookAt rotateY i n g)) = Polaroid_target i n"
  by (simp add: Polaroid_memo_def Let_def split: prod.split)

lemma Polaroid_memo_targetRotationQ:
  "targetRotationQ (fst (Polaroid_memo lookAt rotateY i n g)) =
     rotateY (lookAt (Polaroid_target i n) (0, loc_y (Polaroid_locals i n), 0)) pi"
  by (simp add: Polaroid_memo_def Let_def split: prod.split)

lemma Polaroid_y_distinct:
  assumes "n \<noteq> m" "i < n" "i < m" "0 < i"
  shows "loc_y (Polaroid_locals i n) \<noteq> loc_y (Polaroid_locals i m)"
proof -
  have n: "real n - 1 > 0" and m: "real m - 1 > 0" using assms by simp_all
  have ne: "real n - 1 \<noteq> real m - 1" using assms by simp
  have i: "real i \<noteq> 0" using assms by simp
  have "real i / (real n - 1) \<noteq> real i / (real m - 1)"
    using n m ne i by (simp add: field_simps)
  then show ?thesis using assms by (simp add: Polaroid_locals_simps)
qed

text \<open>
  C3, as stated, fails at index 0: with two photos and with three photos the first frame
  has the same target position.
\<close>

theorem relayout_first_frame_counterexample:
  "(2::nat) \<noteq> 3 \<and> (0::nat) < 2 \<and> (0::nat) < 3 \<and>
   targetPos (fst (Polaroid_memo (\<lambda>p c. ()) (\<lambda>q a. q) 0 2 (\<lambda>n. 0))) =
   targetPos (fst (Polaroid_memo (\<lambda>p c. ()) (\<lambda>q a. q) 0 3 (\<lambda>n. 0)))"
  by (simp add: Polaroid_memo_targetPos Polaroid_target_zero Polaroid_locals_simps)

text \<open>
  C3, amended. For two distinct values of \<open>totalCount\<close> and an index valid under both, the
  target positions are equal exactly when the index is 0 and both counts are at least 2:
  every frame but the first gets a different target position, and so does the first frame
  when one of the counts is 1.
\<close>

theorem relayout_changes_target:
  assumes "n \<noteq> m" "i < n" "i < m"
  shows "targetPos (fst (Polaroid_memo lookAt rotateY i n g)) =
         targetPos (fst (Polaroid_memo lookAt rotateY i m g'))
         \<longleftrightarrow> i = 0 \<and> 2 \<le> n \<and> 2 \<le> m"
proof (cases "i = 0")
  case False
  then have "loc_y (Polaroid_locals i n) \<noteq> loc_y (Polaroid_locals i m)"
    using assms by (intro Polaroid_y_distinct) simp_all
  then have "Polaroid_target i n \<noteq> Polaroid_target i m"
    by (metis Polaroid_target_y)
  then show ?thesis using False by (simp add: Polaroid_memo_targetPos)
next
  case True
  show ?thesis
  proof (cases "2 \<le> n \<and> 2 \<le> m")
    case True
    then show ?thesis using \<open>i = 0\<close>
      by (simp add: Polaroid_memo_targetPos Polaroid_target_zero Polaroid_locals_simps)
  next
    case False
    then have "(n = 1 \<and> 2 \<le> m) \<or> (m = 1 \<and> 2 \<le> n)" using assms True by arith
    then have "loc_y (Polaroid_locals 0 n) \<noteq> loc_y (Polaroid_locals 0 m)"
      by (auto simp: Polaroid_locals_simps)
    then have "Polaroid_target 0 n \<noteq> Polaroid_target 0 m"
      by (metis Polaroid_target_y)
    then show ?thesis using False True by (simp add: Polaroid_memo_targetPos)
  qed
qed

theorem relayout_changes_target_witness:
  "(2::nat) \<noteq> 3 \<and> (1::nat) < 2 \<and> (1::nat) < 3 \<and>
   targetPos (fst (Polaroid_memo (\<lambda>p c. ()) (\<lambda>q a. q) 1 2 (\<lambda>n. 0))) \<noteq>
   targetPos (fst (Polaroid_memo (\<lambda>p c. ()) (\<lambda>q a. q) 1 3 (\<lambda>n. 0)))"
  using relayout_changes_target [of 2 3 1 "\<lambda>p c. ()" "\<lambda>q a. q" "\<lambda>n. 0" "\<lambda>n. 0"] by simp

text \<open>
  C4. The target position and the target orientation of the memo are the same in two runs
  with the same index and count, whatever \<open>Math.random\<close> returns in each run (only the
  chaos position reads the draws). The two three.js operations are arguments of the model:
  the orientation is the same function of the target position in both runs.
\<close>

theorem placement_deterministic:
  "targetPos (fst (Polaroid_memo lookAt rotateY i n g)) =
     targetPos (fst (Polaroid_memo lookAt rotateY i n g')) \<and>
   targetRotationQ (fst (Polaroid_memo lookAt rotateY i n g)) =
     targetRotationQ (fst (Polaroid_memo lookAt rotateY i n g'))"
  by (simp add: Polaroid_memo_targetPos Polaroid_memo_targetRotationQ)

text \<open>
  C7. With index 0 and count 1 the frame is at the middle of the band from
  \<open>minY = -h/2 + 1.5\<close> to \<open>maxY = h/2 - 2\<close>, its angle is 0 and its radius is positive, so
  the target position is \<open>(r, y, 0)\<close>, which is \<open>(79/22, -1/4, 0)\<close>.
\<close>

theorem single_photo_placement:
  "loc_y (Polaroid_locals 0 1) = ((- TREE_HEIGHT / 2 + 1.5) + (TREE_HEIGHT / 2 - 2.0)) / 2 \<and>
   loc_angle (Polaroid_locals 0 1) = 0 \<and>
   0 < loc_r (Polaroid_locals 0 1) \<and>
   targetPos (fst (Polaroid_memo lookAt rotateY 0 1 g)) =
     (loc_r (Polaroid_locals 0 1), loc_y (Polaroid_locals 0 1), 0) \<and>
   targetPos (fst (Polaroid_memo lookAt rotateY 0 1 g)) = (79 / 22, - 1 / 4, 0)"
  by (simp add: Polaroid_memo_targetPos Polaroid_target_zero Polaroid_locals_simps
      TREE_HEIGHT_def)

text \<open>
  C10. The angle of a frame is \<open>index \<cdot> 2.39996\<close> for every count, and for index 0 and two
  counts that are both at least 2 the whole target position is the same.
\<close>

theorem first_frame_stable:
  assumes "2 \<le> n" "2 \<le> m"
  shows "loc_angle (Polaroid_locals i n) = real i * 2.39996 \<and>
         loc_angle (Polaroid_locals i n) = loc_angle (Polaroid_locals i m) \<and>
         loc_y (Polaroid_locals 0 n) = loc_y (Polaroid_locals 0 m) \<and>
         loc_r (Polaroid_locals 0 n) = loc_r (Polaroid_locals 0 m) \<and>
         targetPos (fst (Polaroid_memo lookAt rotateY 0 n g)) =
         targetPos (fst (Polaroid_memo lookAt rotateY 0 m g'))"
  using assms by (simp add: Polaroid_memo_targetPos Polaroid_target_zero Polaroid_locals_simps)

theorem first_frame_stable_witness:
  "(2::nat) \<le> 2 \<and> (2::nat) \<le> 5 \<and>
   targetPos (fst (Polaroid_memo (\<lambda>p c. ()) (\<lambda>q a. q) 0 2 (\<lambda>n. 0))) =
   targetPos (fst (Polaroid_memo (\<lambda>p c. ()) (\<lambda>q a. q) 0 5 (\<lambda>n. 1 / 2)))"
  using first_frame_stable [of 2 5 0 "\<lambda>p c. ()" "\<lambda>q a. q" "\<lambda>n. 0" "\<lambda>n. 1 / 2"] by simp

section \<open>The particle groups: construction and frames\<close>

lemma for_loop_invariant:
  "(\<forall>j s. j < count \<longrightarrow> I s \<longrightarrow> I (body j s)) \<Longrightarrow> I s \<Longrightarrow> I (for_loop body i count s)"
proof (induction body i count s rule: for_loop.induct)
  case (1 body i count s)
  show ?case
  proof (cases "i < count")
    case True
    then have "I (body i s)" using "1.prems" by blast
    then have "I (for_loop body (Suc i) count (body i s))"
      using "1.IH" [OF True "1.prems"(1)] by blast
    then show ?thesis using True by (subst for_loop.simps) simp
  next
    case False
    then show ?thesis using "1.prems"(2) by (subst for_loop.simps) simp
  qed
qed

lemma length_set3: "length (set3 a i p) = length a"
  by (cases p) (simp add: set3_def)

lemma aligned_new: "aligned count (new_buffers count, g)"
  by (simp add: aligned_def new_buffers_def)

lemma aligned_GoldRibbons_body:
  "aligned count s \<Longrightarrow> aligned count (GoldRibbons_body hi lo count i s)"
  by (cases s) (simp add: aligned_def GoldRibbons_body_def Let_def length_set3 split: prod.split)

lemma aligned_GreenDust_body:
  "aligned count s \<Longrightarrow> aligned count (GreenDust_body light deep count i s)"
  by (cases s) (simp add: aligned_def GreenDust_body_def Let_def length_set3 split: prod.split)

lemma aligned_GoldRibbons_init: "aligned count (GoldRibbons_init hi lo count g)"
  unfolding GoldRibbons_init_def
  by (rule for_loop_invariant) (simp_all add: aligned_new aligned_GoldRibbons_body)

lemma aligned_GreenDust_init: "aligned count (GreenDust_init light deep count g)"
  unfolding GreenDust_init_def
  by (rule for_loop_invariant) (simp_all add: aligned_new aligned_GreenDust_body)

lemma length_animate_body: "length (animate_body alpha f T C i cur) = length cur"
  by (simp add: animate_body_def Let_def)

lemma length_animate_loop:
  "length (for_loop (animate_body alpha f T C) i count cur) = length cur"
  by (rule for_loop_invariant [where I = "\<lambda>c. length c = length cur"])
     (simp_all add: length_animate_body)

lemma useFrame_fields:
  "targetPositions (useFrame alpha count mounted st b) = targetPositions b"
  "chaosPositions (useFrame alpha count mounted st b) = chaosPositions b"
  "length (positions (useFrame alpha count mounted st b)) = length (positions b)"
  by (simp_all add: useFrame_def Let_def length_animate_loop)

lemma run_frames_fields:
  assumes "\<And>mounted st b. targetPositions (f mounted st b) = targetPositions b"
      and "\<And>mounted st b. chaosPositions (f mounted st b) = chaosPositions b"
      and "\<And>mounted st b. length (positions (f mounted st b)) = length (positions b)"
  shows "targetPositions (run_frames f fs b) = targetPositions b \<and>
         chaosPositions (run_frames f fs b) = chaosPositions b \<and>
         length (positions (run_frames f fs b)) = length (positions b)"
proof (induction fs arbitrary: b)
  case Nil
  show ?case by simp
next
  case (Cons fr fs)
  obtain mounted st where fr: "fr = (mounted, st)" by (cases fr)
  show ?case using Cons [of "f mounted st b"] assms by (simp add: fr)
qed

lemma run_frames_useFrame:
  "targetPositions (run_frames (useFrame alpha count) fs b) = targetPositions b \<and>
   chaosPositions (run_frames (useFrame alpha count) fs b) = chaosPositions b \<and>
   length (positions (run_frames (useFrame alpha count) fs b)) = length (positions b)"
  by (rule run_frames_fields) (simp_all add: useFrame_fields)

text \<open>
  C9. After the construction of the ribbons and of the dust, whatever the draws, the
  position array equals the chaos array entry by entry; the position, target and chaos
  arrays have length \<open>3 \<cdot> N\<close> (\<open>N\<close> = 3000 and 12000), and they still have it after any
  sequence of frames, mounted or not, in either control state.
\<close>

theorem particle_arrays_aligned:
  "positions (fst (GoldRibbons_init hi lo ORNAMENT_COUNT g)) =
     chaosPositions (fst (GoldRibbons_init hi lo ORNAMENT_COUNT g)) \<and>
   positions (fst (GreenDust_init light deep NEEDLE_COUNT g)) =
     chaosPositions (fst (GreenDust_init light deep NEEDLE_COUNT g)) \<and>
   length (positions (run_frames GoldRibbons_useFrame fs
     (fst (GoldRibbons_init hi lo ORNAMENT_COUNT g)))) = 3 * ORNAMENT_COUNT \<and>
   length (targetPositions (run_frames GoldRibbons_useFrame fs
     (fst (GoldRibbons_init hi lo ORNAMENT_COUNT g)))) = 3 * ORNAMENT_COUNT \<and>
   length (chaosPositions (run_frames GoldRibbons_useFrame fs
     (fst (GoldRibbons_init hi lo ORNAMENT_COUNT g)))) = 3 * ORNAMENT_COUNT \<and>
   length (positions (run_frames GreenDust_useFrame fs
     (fst (GreenDust_init light deep NEEDLE_COUNT g)))) = 3 * NEEDLE_COUNT \<and>
   length (targetPositions (run_frames GreenDust_useFrame fs
     (fst (GreenDust_init light deep NEEDLE_COUNT g)))) = 3 * NEEDLE_COUNT \<and>
   length (chaosPositions (run_frames GreenDust_useFrame fs
     (fst (GreenDust_init light deep NEEDLE_COUNT g)))) = 3 * NEEDLE_COUNT"
  using aligned_GoldRibbons_init [of ORNAMENT_COUNT hi lo g]
        aligned_GreenDust_init [of NEEDLE_COUNT light deep g]
  by (simp add: aligned_def GoldRibbons_useFrame_def GreenDust_useFrame_def run_frames_useFrame)

text \<open>
  Every element of the position, target and chaos arrays is a single-precision number,
  after the construction and after any frames: the hypotheses of the smoothing theorem on
  the entry and its target hold for the arrays of the program.
\<close>

lemma all_f32_update: "all_f32 xs \<Longrightarrow> is_f32 v \<Longrightarrow> all_f32 (xs[i := v])"
  unfolding all_f32_def using set_update_subset_insert [of xs i v] by auto

lemma is_f32_fround: "is_f32 (fround x)"
  by (simp add: is_f32_def)

lemma all_f32_set3: "all_f32 a \<Longrightarrow> all_f32 (set3 a i p)"
  by (cases p) (simp add: set3_def all_f32_update is_f32_fround)

lemma stored_new: "stored (new_buffers count, g)"
  by (simp add: stored_def new_buffers_def all_f32_def is_f32_def)

lemma stored_GoldRibbons_body: "stored s \<Longrightarrow> stored (GoldRibbons_body hi lo count i s)"
  by (cases s) (simp add: stored_def GoldRibbons_body_def Let_def all_f32_set3 split: prod.split)

lemma stored_GreenDust_body: "stored s \<Longrightarrow> stored (GreenDust_body light deep count i s)"
  by (cases s) (simp add: stored_def GreenDust_body_def Let_def all_f32_set3 split: prod.split)

lemma stored_GoldRibbons_init: "stored (GoldRibbons_init hi lo count g)"
  unfolding GoldRibbons_init_def
  by (rule for_loop_invariant) (simp_all add: stored_new stored_GoldRibbons_body)

lemma stored_GreenDust_init: "stored (GreenDust_init light deep count g)"
  unfolding GreenDust_init_def
  by (rule for_loop_invariant) (simp_all add: stored_new stored_GreenDust_body)

lemma all_f32_animate_body: "all_f32 cur \<Longrightarrow> all_f32 (animate_body alpha f T C i cur)"
  by (simp add: animate_body_def Let_def all_f32_update is_f32_lerp_update)

lemma all_f32_useFrame:
  "all_f32 (positions b) \<Longrightarrow> all_f32 (positions (useFrame alpha count mounted st b))"
  unfolding useFrame_def Let_def
  by (cases mounted) (simp_all add: for_loop_invariant [where I = all_f32] all_f32_animate_body)

lemma all_f32_run_frames:
  "all_f32 (positions b) \<Longrightarrow> all_f32 (positions (run_frames (useFrame alpha count) fs b))"
proof (induction fs arbitrary: b)
  case Nil
  then show ?case by simp
next
  case (Cons fr fs)
  obtain mounted st where fr: "fr = (mounted, st)" by (cases fr)
  show ?case using Cons.IH [OF all_f32_useFrame [OF Cons.prems]] by (simp add: fr)
qed

lemma arrays_single_precision:
  "all_f32 (positions (run_frames GoldRibbons_useFrame fs
     (fst (GoldRibbons_init hi lo count g)))) \<and>
   all_f32 (targetPositions (run_frames GoldRibbons_useFrame fs
     (fst (GoldRibbons_init hi lo count g)))) \<and>
   all_f32 (chaosPositions (run_frames GoldRibbons_useFrame fs
     (fst (GoldRibbons_init hi lo count g)))) \<and>
   all_f32 (positions (run_frames GreenDust_useFrame fs
     (fst (GreenDust_init light deep count g)))) \<and>
   all_f32 (targetPositions (run_frames GreenDust_useFrame fs
     (fst (GreenDust_init light deep count g)))) \<and>
   all_f32 (chaosPositions (run_frames GreenDust_useFrame fs
     (fst (GreenDust_init light deep count g))))"
  using stored_GoldRibbons_init [of hi lo count g] stored_GreenDust_init [of light deep count g]
  by (simp add: stored_def GoldRibbons_useFrame_def GreenDust_useFrame_def
      run_frames_useFrame all_f32_run_frames)

text \<open>
  The frame loop and the scalar update: one mounted frame replaces every entry of the
  position array by its \<open>lerp_update\<close> towards the entry of the active array, and \<open>n\<close>
  frames in one control state are \<open>lerp_iter\<close> on every entry.
\<close>

lemma animate_body_nth:
  assumes "k < length cur"
  shows "animate_body alpha f T C i cur ! k =
     (if k div 3 = i then lerp_update alpha ((if f then T else C) ! k) (cur ! k) else cur ! k)"
proof -
  have "k div 3 = i \<longleftrightarrow> k = i * 3 \<or> k = i * 3 + 1 \<or> k = i * 3 + 2" by arith
  then show ?thesis using assms
    by (auto simp: animate_body_def Let_def nth_list_update)
qed

lemma animate_loop_nth:
  "k < length cur \<Longrightarrow>
   for_loop (animate_body alpha f T C) i count cur ! k =
     (if i \<le> k div 3 \<and> k div 3 < count
      then lerp_update alpha ((if f then T else C) ! k) (cur ! k) else cur ! k)"
proof (induction "animate_body alpha f T C" i count cur rule: for_loop.induct)
  case (1 i count cur)
  show ?case
  proof (cases "i < count")
    case True
    have len: "k < length (animate_body alpha f T C i cur)"
      using "1.prems" by (simp add: length_animate_body)
    show ?thesis
      using "1.hyps" [OF True len] True "1.prems"
      by (subst for_loop.simps) (auto simp: animate_body_nth)
  next
    case False
    then show ?thesis by (subst for_loop.simps) auto
  qed
qed

lemma useFrame_nth:
  assumes "k < length (positions b)" "k < count * 3"
  shows "positions (useFrame alpha count True st b) ! k =
     lerp_update alpha ((if st = FORMED then targetPositions b else chaosPositions b) ! k)
       (positions b ! k)"
proof -
  have "k div 3 < count" using assms(2) by arith
  then show ?thesis using assms(1) by (simp add: useFrame_def Let_def animate_loop_nth)
qed

lemma run_frames_nth:
  assumes "k < length (positions b)" "k < count * 3"
  shows "positions (run_frames (useFrame alpha count) (replicate n (True, st)) b) ! k =
     lerp_iter alpha ((if st = FORMED then targetPositions b else chaosPositions b) ! k) n
       (positions b ! k)"
  using assms
proof (induction n arbitrary: b)
  case 0
  show ?case by simp
next
  case (Suc n)
  let ?b = "useFrame alpha count True st b"
  have k: "k < length (positions ?b)" using Suc.prems by (simp add: useFrame_fields)
  show ?case
    using Suc.IH [OF k Suc.prems(2)] Suc.prems
    by (simp add: useFrame_fields useFrame_nth)
qed

section \<open>The golden angle\<close>

text \<open>
  Bounds of \<open>\<pi>\<close> from Machin's formula and the partial sums of the series of \<open>arctan\<close>,
  which lie alternately below and above its sum.
\<close>

lemma arctan_partial_sums:
  assumes "0 \<le> x" "x \<le> 1"
  shows "(\<Sum>i<2 * n. (- 1) ^ i * arctan_term x i) \<le> arctan x"
    and "arctan x \<le> (\<Sum>i<2 * n + 1. (- 1) ^ i * arctan_term x i)"
proof -
  have ax: "\<bar>x\<bar> \<le> 1" using assms by simp
  have z: "arctan_term x \<longlonglongrightarrow> 0"
    unfolding arctan_term_def using zeroseq_arctan_series [OF ax] .
  have p: "0 \<le> arctan_term x k" for k
    using assms by (simp add: arctan_term_def)
  have m: "arctan_term x (Suc k) \<le> arctan_term x k" for k
  proof -
    have 1: "x ^ (Suc k * 2 + 1) \<le> x ^ (k * 2 + 1)"
      using assms by (intro power_decreasing) simp_all
    have 2: "1 / real (Suc k * 2 + 1) \<le> 1 / real (k * 2 + 1)"
      by (intro divide_left_mono) simp_all
    show ?thesis unfolding arctan_term_def
      using 1 2 assms by (intro mult_mono) simp_all
  qed
  have s: "arctan x = (\<Sum>k. (- 1) ^ k * arctan_term x k)"
    unfolding arctan_term_def using arctan_series [OF ax] .
  show "(\<Sum>i<2 * n. (- 1) ^ i * arctan_term x i) \<le> arctan x"
    unfolding s by (rule summable_Leibniz'(2) [OF z p m])
  show "arctan x \<le> (\<Sum>i<2 * n + 1. (- 1) ^ i * arctan_term x i)"
    unfolding s by (rule summable_Leibniz'(4) [OF z p m])
qed

lemma pi_bounds: "3.14159265 < pi" "pi < 3.14159266"
proof -
  have l5: "(\<Sum>i<2 * 3. (- 1) ^ i * arctan_term (1 / 5) i) \<le> arctan (1 / 5)"
    by (rule arctan_partial_sums) simp_all
  have u5: "arctan (1 / 5) \<le> (\<Sum>i<2 * 3 + 1. (- 1) ^ i * arctan_term (1 / 5) i)"
    by (rule arctan_partial_sums) simp_all
  have l239: "(\<Sum>i<2 * 1. (- 1) ^ i * arctan_term (1 / 239) i) \<le> arctan (1 / 239)"
    by (rule arctan_partial_sums) simp_all
  have u239: "arctan (1 / 239) \<le> (\<Sum>i<2 * 1 + 1. (- 1) ^ i * arctan_term (1 / 239) i)"
    by (rule arctan_partial_sums) simp_all
  have pi_eq: "pi = 16 * arctan (1 / 5) - 4 * arctan (1 / 239)"
    using machin by simp
  have L5: "(0.19739555978 :: real) < (\<Sum>i<2 * 3. (- 1) ^ i * arctan_term (1 / 5) i)"
    by (simp add: arctan_term_def lessThan_nat_numeral sum.lessThan_Suc eval_nat_numeral)
  have U5: "(\<Sum>i<2 * 3 + 1. (- 1) ^ i * arctan_term (1 / 5) i) < (0.19739555986 :: real)"
    by (simp add: arctan_term_def lessThan_nat_numeral sum.lessThan_Suc eval_nat_numeral)
  have L239: "(0.0041840760018 :: real) < (\<Sum>i<2 * 1. (- 1) ^ i * arctan_term (1 / 239) i)"
    by (simp add: arctan_term_def lessThan_nat_numeral sum.lessThan_Suc eval_nat_numeral)
  have U239: "(\<Sum>i<2 * 1 + 1. (- 1) ^ i * arctan_term (1 / 239) i) < (0.0041840760021 :: real)"
    by (simp add: arctan_term_def lessThan_nat_numeral sum.lessThan_Suc eval_nat_numeral)
  show "3.14159265 < pi" using l5 u239 L5 U239 pi_eq by simp
  show "pi < 3.14159266" using u5 l239 U5 L239 pi_eq by simp
qed

lemma gaps_ok_nth:
  "gaps_ok n (M - q * 314159266) ((q + 1) * 314159265 - M) \<Longrightarrow> j < n \<Longrightarrow>
   \<exists>q'. q' * 314159266 \<le> M + int j * 119998000 \<and>
        M + int j * 119998000 \<le> (q' + 1) * 314159265"
proof (induction n arbitrary: M q j)
  case 0
  then show ?case by simp
next
  case (Suc n)
  show ?case
  proof (cases j)
    case 0
    then show ?thesis using Suc.prems(1) by (intro exI [of _ q]) simp
  next
    case (Suc j')
    then have j': "j' < n" using Suc.prems by simp
    let ?M = "M + 119998000"
    have "\<exists>q'. gaps_ok n (?M - q' * 314159266) ((q' + 1) * 314159265 - ?M)"
    proof (cases "314159266 \<le> M - q * 314159266 + 119998000")
      case True
      then have "gaps_ok n (?M - (q + 1) * 314159266) ((q + 1 + 1) * 314159265 - ?M)"
        using Suc.prems(1) by (simp add: algebra_simps)
      then show ?thesis by blast
    next
      case False
      then have "gaps_ok n (?M - q * 314159266) ((q + 1) * 314159265 - ?M)"
        using Suc.prems(1) by (simp add: algebra_simps)
      then show ?thesis by blast
    qed
    then obtain q' where "gaps_ok n (?M - q' * 314159266) ((q' + 1) * 314159265 - ?M)" ..
    from Suc.IH [OF this j'] show ?thesis using Suc by (simp add: algebra_simps)
  qed
qed

lemma gaps_ok_999: "gaps_ok 999 119998000 (314159265 - 119998000)"
  by code_simp

lemma no_int_between:
  fixes a b M k q :: int
  assumes "0 < a" "0 < b" "q * b \<le> M" "M \<le> (q + 1) * a" "k * a < M" "M < k * b"
  shows False
proof (cases "k \<le> q")
  case True
  then have "k * b \<le> q * b" using assms(2) by (intro mult_right_mono) simp_all
  then show False using assms(3,6) by linarith
next
  case False
  then have "q + 1 \<le> k" by simp
  then have "(q + 1) * a \<le> k * a" using assms(1) by (intro mult_right_mono) simp_all
  then show False using assms(4,5) by linarith
qed

lemma golden_no_period:
  assumes "1 \<le> d" "d < 1000"
  shows "real d * 2.39996 \<noteq> 2 * pi * of_int k"
proof
  assume eq: "real d * 2.39996 = 2 * pi * of_int k"
  have dpos: "0 < real d * 2.39996" using assms by simp
  have kpos: "0 < (of_int k :: real)"
  proof (rule ccontr)
    assume "\<not> 0 < (of_int k :: real)"
    then have "(of_int k :: real) \<le> 0" by simp
    then have "2 * pi * of_int k \<le> 0"
      by (simp add: mult_le_0_iff)
    then show False using dpos eq by simp
  qed
  have lo: "2 * 3.14159265 * of_int k < 2 * pi * (of_int k :: real)"
    using pi_bounds(1) kpos by simp
  have hi: "2 * pi * (of_int k :: real) < 2 * 3.14159266 * of_int k"
    using pi_bounds(2) kpos by simp
  have "real_of_int (k * 314159265) < real_of_int (int d * 119998000)"
    using lo eq by simp
  then have A: "k * 314159265 < int d * 119998000" by (simp only: of_int_less_iff)
  have "real_of_int (int d * 119998000) < real_of_int (k * 314159266)"
    using hi eq by simp
  then have B: "int d * 119998000 < k * 314159266" by (simp only: of_int_less_iff)
  obtain j where j: "d = Suc j" using assms(1) by (cases d) simp_all
  have "j < 999" using assms(2) j by simp
  with gaps_ok_nth [of 999 119998000 0 j] gaps_ok_999
  obtain q where q: "q * 314159266 \<le> 119998000 + int j * 119998000"
      "119998000 + int j * 119998000 \<le> (q + 1) * 314159265" by auto
  have M: "int d * 119998000 = 119998000 + int j * 119998000" by (simp add: j)
  show False
    by (rule no_int_between [of 314159265 314159266 q "int d * 119998000" k])
       (use q A B M in simp_all)
qed

lemma golden_angles_apart:
  assumes "i < 1000" "j < 1000" "i \<noteq> j"
  shows "real i * 2.39996 \<noteq> real j * 2.39996 + 2 * pi * of_int k"
proof
  assume eq: "real i * 2.39996 = real j * 2.39996 + 2 * pi * of_int k"
  show False
  proof (cases "j < i")
    case True
    then have "real (i - j) * 2.39996 = 2 * pi * of_int k"
      using eq by (simp add: of_nat_diff algebra_simps)
    moreover have "1 \<le> i - j" "i - j < 1000" using True assms by simp_all
    ultimately show False using golden_no_period by blast
  next
    case False
    then have ij: "i < j" using assms by simp
    then have "real (j - i) * 2.39996 = 2 * pi * of_int (- k)"
      using eq by (simp add: of_nat_diff algebra_simps)
    moreover have "1 \<le> j - i" "j - i < 1000" using ij assms by simp_all
    ultimately show False using golden_no_period by blast
  qed
qed

lemma mod_2pi_eq_imp:
  assumes "mod_2pi a = mod_2pi b"
  shows "\<exists>k::int. a = b + 2 * pi * of_int k"
proof -
  have "a = b + 2 * pi * of_int (\<lfloor>a / (2 * pi)\<rfloor> - \<lfloor>b / (2 * pi)\<rfloor>)"
    using assms by (simp add: mod_2pi_def algebra_simps)
  then show ?thesis ..
qed

text \<open>
  C8. For every count up to 1000 and two distinct indices below it, the angles
  \<open>i \<cdot> 2.39996\<close> and \<open>j \<cdot> 2.39996\<close> are different modulo \<open>2\<pi>\<close>; the source does not
  reduce the angle but takes its cosine and sine, and these pairs are different too.
\<close>

theorem golden_angle_no_collision:
  assumes "totalCount \<le> 1000" "i < totalCount" "j < totalCount" "i \<noteq> j"
  shows "mod_2pi (loc_angle (Polaroid_locals i totalCount)) \<noteq>
         mod_2pi (loc_angle (Polaroid_locals j totalCount)) \<and>
         (cos (loc_angle (Polaroid_locals i totalCount)),
          sin (loc_angle (Polaroid_locals i totalCount))) \<noteq>
         (cos (loc_angle (Polaroid_locals j totalCount)),
          sin (loc_angle (Polaroid_locals j totalCount)))"
proof -
  have b: "i < 1000" "j < 1000" using assms by simp_all
  have ang: "loc_angle (Polaroid_locals i totalCount) = real i * 2.39996"
            "loc_angle (Polaroid_locals j totalCount) = real j * 2.39996"
    by (simp_all add: Polaroid_locals_simps)
  have ne: "\<And>k::int. real i * 2.39996 \<noteq> real j * 2.39996 + 2 * pi * of_int k"
    using golden_angles_apart [OF b assms(4)] .
  have 1: "mod_2pi (real i * 2.39996) \<noteq> mod_2pi (real j * 2.39996)"
    using mod_2pi_eq_imp ne by blast
  have 2: "\<not> (sin (real i * 2.39996) = sin (real j * 2.39996) \<and>
              cos (real i * 2.39996) = cos (real j * 2.39996))"
    unfolding sin_cos_eq_iff using ne by (simp add: mult.commute)
  show ?thesis unfolding ang using 1 2 by auto
qed

theorem golden_angle_no_collision_witness:
  "(3::nat) \<le> 1000 \<and> (0::nat) < 3 \<and> (2::nat) < 3 \<and> (0::nat) \<noteq> 2 \<and>
   mod_2pi (loc_angle (Polaroid_locals 0 3)) \<noteq> mod_2pi (loc_angle (Polaroid_locals 2 3))"
  using golden_angle_no_collision [of 3 0 2] by simp

end
